theory Spec2Isabelle
  imports Complex_Main "HOL-Library.Word" "HOL-Library.Log_Nat"
begin

section \<open>Values of the host language\<close>

text \<open>
  The program is JavaScript. A string is a sequence of UTF-16 code units, an element of
  a \<^verbatim>\<open>Uint8ClampedArray\<close> is an 8-bit unsigned integer, array lengths and loop
  counters are natural numbers.
\<close>

type_synonym js_string = "16 word list"
type_synonym u8 = "8 word"

text \<open>
  A JavaScript number is an IEEE-754 double. The finite doubles are rational numbers, and
  every arithmetic operation returns the exact result rounded to the nearest double,
  ties to the even significand. \<open>fl53\<close> is that rounding to 53 significant bits:
  \<open>ilog2 x\<close> is the binary exponent of \<open>x > 0\<close>, the \<open>e\<close> with
  \<open>2 powi e \<le> x < 2 powi (e + 1)\<close>. Overflow to Infinity and the subnormal range are
  not modelled; the luminances, pixel counts, variances and times of this program stay
  far inside the normal range. Division by zero is treated where a divisor can be zero.
\<close>

type_synonym number = rat

definition ilog2 :: "rat \<Rightarrow> int" where
  "ilog2 x = (if 1 \<le> x then bitlen \<lfloor>x\<rfloor> - 1 else - bitlen (\<lceil>1 / x\<rceil> - 1))"

definition round_even :: "rat \<Rightarrow> int" where
  "round_even y =
     (let f = \<lfloor>y\<rfloor>; d = y - of_int f
      in if d < 1 / 2 then f else if 1 / 2 < d then f + 1 else if even f then f else f + 1)"

definition fl53 :: "rat \<Rightarrow> number" where
  "fl53 x =
     (if x = 0 then 0
      else let u = 2 powi (ilog2 \<bar>x\<bar> - 52)
           in sgn x * of_int (round_even (\<bar>x\<bar> / u)) * u)"

definition js_add :: "number \<Rightarrow> number \<Rightarrow> number" where
  "js_add a b = fl53 (a + b)"

definition js_sub :: "number \<Rightarrow> number \<Rightarrow> number" where
  "js_sub a b = fl53 (a - b)"

definition js_mul :: "number \<Rightarrow> number \<Rightarrow> number" where
  "js_mul a b = fl53 (a * b)"

text \<open>\<^verbatim>\<open>a / b\<close> for \<open>b \<noteq> 0\<close>.\<close>

definition js_div :: "number \<Rightarrow> number \<Rightarrow> number" where
  "js_div a b = fl53 (a / b)"

text \<open>\<^verbatim>\<open>Math.round\<close>: the nearest integer, a tie going up.\<close>

definition Math_round :: "number \<Rightarrow> int" where
  "Math_round x = \<lfloor>x + 1 / 2\<rfloor>"

text \<open>Storing an integer into a \<^verbatim>\<open>Uint8ClampedArray\<close> clamps it to 0..255.\<close>

definition toUint8Clamped :: "int \<Rightarrow> u8" where
  "toUint8Clamped n = word_of_int (max 0 (min 255 n))"

section \<open>Text export (imageProcessor.js, exportAsText)\<close>

definition glyph_on :: "16 word" where
  "glyph_on = 0x2612"

definition glyph_off :: "16 word" where
  "glyph_off = 0x2610"

definition newline :: "16 word" where
  "newline = 0x000A"

definition glyph :: "bool \<Rightarrow> 16 word" where
  "glyph s = (if s then glyph_on else glyph_off)"

text \<open>
  The loop \<^verbatim>\<open>for (let i = 0; i < checkboxStates.length; i++)\<close>, started at index
  \<open>i\<close> with the cells from \<open>i\<close> on still to be written. For \<open>gridSize = 0\<close> the
  source's \<^verbatim>\<open>(i + 1) % 0\<close> is NaN, which is not \<^verbatim>\<open>=== 0\<close>; in HOL
  \<open>(i + 1) mod 0 = i + 1\<close>, which is not 0 either: no line break in both.
\<close>

fun exportAsText_from :: "nat \<Rightarrow> bool list \<Rightarrow> nat \<Rightarrow> js_string" where
  "exportAsText_from i [] gridSize = []"
| "exportAsText_from i (s # rest) gridSize =
     glyph s # (if (i + 1) mod gridSize = 0 then [newline] else [])
       @ exportAsText_from (i + 1) rest gridSize"

definition exportAsText :: "bool list \<Rightarrow> nat \<Rightarrow> js_string" where
  "exportAsText checkboxStates gridSize = exportAsText_from 0 checkboxStates gridSize"

text \<open>
  What a reader of the text sees: the pieces between line breaks, as
  \<^verbatim>\<open>text.split('\n')\<close> returns them. A text that ends with a line break has an
  empty last piece.
\<close>

fun split_on :: "'a \<Rightarrow> 'a list \<Rightarrow> 'a list list" where
  "split_on sep [] = [[]]"
| "split_on sep (x # xs) =
     (if x = sep then [] # split_on sep xs
      else (case split_on sep xs of
              [] \<Rightarrow> [[x]]
            | l # ls \<Rightarrow> (x # l) # ls))"

definition grid_row :: "bool list \<Rightarrow> nat \<Rightarrow> nat \<Rightarrow> bool list" where
  "grid_row grid gridSize r = map (\<lambda>c. grid ! (r * gridSize + c)) [0..<gridSize]"

section \<open>Rasters and the canvas (imageProcessor.js)\<close>

text \<open>
  An \<^verbatim>\<open>ImageData\<close>: its \<open>data\<close> is the flat \<^verbatim>\<open>Uint8ClampedArray\<close> of
  red, green, blue and alpha bytes, four per pixel, row by row. The browser only builds
  such objects with positive dimensions and \<open>4 * width * height\<close> bytes.
\<close>

record imageData =
  width :: nat
  height :: nat
  data :: "u8 list"

definition valid_imageData :: "imageData \<Rightarrow> bool" where
  "valid_imageData img \<longleftrightarrow>
     0 < width img \<and> 0 < height img \<and> length (data img) = 4 * width img * height img"

text \<open>
  The codes of \<^verbatim>\<open>ImageProcessingError\<close>, and the other exceptions that reach a caller:
  the plain \<^verbatim>\<open>Error\<close> objects of gifFrameExtractor.js and the browser's own exceptions.
\<close>

datatype error_code =
    NO_FILE | UNSUPPORTED_FORMAT | FILE_TOO_LARGE
  | IMAGE_TOO_SMALL | IMAGE_TOO_LARGE | LOAD_ERROR
  | GRAYSCALE_ERROR | THRESHOLD_ERROR | OTSU_ERROR

datatype error =
    ImageProcessingError error_code
  | PlainError string
  | BrowserException string

text \<open>
  Scaling is done by the browser: \<^verbatim>\<open>ctx.drawImage(source, 0, 0, w, h)\<close> followed by
  \<^verbatim>\<open>ctx.getImageData(0, 0, w, h)\<close>. The repository does not contain it, so every
  function that draws takes it as a parameter: \<open>draw source w h\<close> is the raster read
  back from a \<open>w\<close> by \<open>h\<close> canvas after the source was drawn onto it.
  \<^verbatim>\<open>getImageData\<close> raises IndexSizeError for an empty rectangle.
\<close>

type_synonym drawImage = "imageData \<Rightarrow> nat \<Rightarrow> nat \<Rightarrow> imageData"

text \<open>
  The loop of applyThreshold, \<^verbatim>\<open>for (let i = 0; i < data.length; i += 4)
  result.push(data[i] < threshold)\<close>: the first byte of every group of four.
\<close>

fun threshold_loop :: "u8 list \<Rightarrow> nat \<Rightarrow> bool list" where
  "threshold_loop [] threshold = []"
| "threshold_loop (gray # rest) threshold =
     (unat gray < threshold) # threshold_loop (drop 3 rest) threshold"

definition applyThreshold :: "drawImage \<Rightarrow> imageData \<Rightarrow> nat \<Rightarrow> nat \<Rightarrow> error + bool list" where
  "applyThreshold draw img threshold gridSize =
     (if gridSize = 0 then Inl (ImageProcessingError THRESHOLD_ERROR)
      else Inr (threshold_loop (data (draw img gridSize gridSize)) threshold))"

text \<open>The luminance of grid cell \<open>k\<close>: the red byte of pixel \<open>k\<close> of the scaled raster.\<close>

definition cell_luminance :: "drawImage \<Rightarrow> imageData \<Rightarrow> nat \<Rightarrow> nat \<Rightarrow> nat" where
  "cell_luminance draw img gridSize k = unat (data (draw img gridSize gridSize) ! (4 * k))"

text \<open>
  One scaler a canvas may implement (image smoothing switched off): every target pixel
  copies the source pixel at the proportional position. It is used to run the functions
  on concrete rasters; no general statement below depends on it.
\<close>

definition drawNearest :: drawImage where
  "drawNearest src w h =
     \<lparr>width = w, height = h,
      data = concat (map (\<lambda>k. take 4 (drop (4 * ((k div w * height src div h) * width src
                                               + k mod w * width src div w)) (data src)))
                         [0..<w * h])\<rparr>"

section \<open>Grayscale conversion (imageProcessor.js)\<close>

text \<open>
  \<^verbatim>\<open>PROCESSING_CONFIG\<close>. A decimal literal such as \<^verbatim>\<open>0.299\<close> denotes the double
  nearest to it.
\<close>

definition SUPPORTED_FORMATS :: "string list" where
  "SUPPORTED_FORMATS = [''image/jpeg'', ''image/png'', ''image/gif'', ''image/webp'']"

definition MAX_FILE_SIZE :: nat where
  "MAX_FILE_SIZE = 10 * 1024 * 1024"

definition MIN_DIMENSION :: nat where
  "MIN_DIMENSION = 10"

definition MAX_DIMENSION :: nat where
  "MAX_DIMENSION = 1000"

definition DEFAULT_THRESHOLD :: nat where
  "DEFAULT_THRESHOLD = 128"

definition GRAYSCALE_WEIGHTS_red :: number where
  "GRAYSCALE_WEIGHTS_red = fl53 (299 / 1000)"

definition GRAYSCALE_WEIGHTS_green :: number where
  "GRAYSCALE_WEIGHTS_green = fl53 (587 / 1000)"

definition GRAYSCALE_WEIGHTS_blue :: number where
  "GRAYSCALE_WEIGHTS_blue = fl53 (114 / 1000)"

text \<open>
  \<^verbatim>\<open>Math.round(r * weights.red + g * weights.green + b * weights.blue)\<close>, the sum taken
  from left to right.
\<close>

definition weighted_sum :: "u8 \<Rightarrow> u8 \<Rightarrow> u8 \<Rightarrow> number" where
  "weighted_sum r g b =
     js_add (js_add (js_mul (of_nat (unat r)) GRAYSCALE_WEIGHTS_red)
                    (js_mul (of_nat (unat g)) GRAYSCALE_WEIGHTS_green))
            (js_mul (of_nat (unat b)) GRAYSCALE_WEIGHTS_blue)"

definition luminance :: "u8 \<Rightarrow> u8 \<Rightarrow> u8 \<Rightarrow> int" where
  "luminance r g b = Math_round (weighted_sum r g b)"

text \<open>The same weighted sum in exact arithmetic, before any rounding.\<close>

definition exact_luminance :: "u8 \<Rightarrow> u8 \<Rightarrow> u8 \<Rightarrow> rat" where
  "exact_luminance r g b =
     (299 * of_nat (unat r) + 587 * of_nat (unat g) + 114 * of_nat (unat b)) / 1000"

text \<open>
  The gray byte the loop body stores for the pixel that starts at index \<open>i\<close>. A typed
  array read past its end is \<^verbatim>\<open>undefined\<close>, the sum is then NaN, and NaN is stored
  as 0. A write past the end of a typed array is ignored, as \<open>xs[i := v]\<close> is.
\<close>

definition gray_at :: "u8 list \<Rightarrow> nat \<Rightarrow> u8" where
  "gray_at d i =
     (if i + 2 < length d then toUint8Clamped (luminance (d ! i) (d ! (i + 1)) (d ! (i + 2)))
      else 0)"

definition byte_at :: "u8 list \<Rightarrow> nat \<Rightarrow> u8" where
  "byte_at d i = (if i < length d then d ! i else 0)"

text \<open>
  convertToGrayscale: the image is drawn onto a canvas of the target size, and the loop
  \<^verbatim>\<open>for (let i = 0; i < data.length; i += 4)\<close> overwrites red, green and blue of the
  raster read back, in place.
\<close>

function grayscale_in_place :: "u8 list \<Rightarrow> nat \<Rightarrow> u8 list" where
  "grayscale_in_place d i =
     (if i < length d
      then grayscale_in_place
             (d[i := gray_at d i, i + 1 := gray_at d i, i + 2 := gray_at d i]) (i + 4)
      else d)"
  by pat_completeness auto
termination
  by (relation "measure (\<lambda>(d, i). length d - i)") auto

declare grayscale_in_place.simps [simp del]

definition convertToGrayscale :: "drawImage \<Rightarrow> imageData \<Rightarrow> nat \<Rightarrow> nat \<Rightarrow> error + imageData" where
  "convertToGrayscale draw img targetWidth targetHeight =
     (if targetWidth = 0 \<or> targetHeight = 0 then Inl (ImageProcessingError GRAYSCALE_ERROR)
      else let imageData = draw img targetWidth targetHeight
           in Inr (imageData\<lparr>data := grayscale_in_place (data imageData) 0\<rparr>))"

text \<open>
  convertImageDataToGrayscale: the same loop, writing into the array of a fresh
  \<^verbatim>\<open>new ImageData(width, height)\<close>, which is zero-filled, and copying alpha. The
  constructor raises IndexSizeError for a zero dimension.
\<close>

function grayscale_copy :: "u8 list \<Rightarrow> u8 list \<Rightarrow> nat \<Rightarrow> u8 list" where
  "grayscale_copy d grayscaleArray i =
     (if i < length d
      then grayscale_copy d
             (grayscaleArray[i := gray_at d i, i + 1 := gray_at d i, i + 2 := gray_at d i,
                             i + 3 := byte_at d (i + 3)]) (i + 4)
      else grayscaleArray)"
  by pat_completeness auto
termination
  by (relation "measure (\<lambda>(d, out, i). length d - i)") auto

declare grayscale_copy.simps [simp del]

definition convertImageDataToGrayscale :: "imageData \<Rightarrow> error + imageData" where
  "convertImageDataToGrayscale img =
     (if width img = 0 \<or> height img = 0 then Inl (BrowserException ''IndexSizeError'')
      else Inr \<lparr>width = width img, height = height img,
                data = grayscale_copy (data img) (replicate (4 * width img * height img) 0) 0\<rparr>)"

text \<open>A raster in which red, green and blue agree in every pixel.\<close>

definition is_grayscale :: "imageData \<Rightarrow> bool" where
  "is_grayscale img \<longleftrightarrow>
     (\<forall>k \<in> {..<width img * height img}.
        data img ! (4 * k + 1) = data img ! (4 * k) \<and> data img ! (4 * k + 2) = data img ! (4 * k))"

section \<open>Otsu's threshold (imageProcessor.js, calculateOtsuThreshold)\<close>

text \<open>
  The histogram loop: \<^verbatim>\<open>histogram[data[i]]++\<close> for the first byte of every group of
  four, on \<^verbatim>\<open>new Array(256).fill(0)\<close>. Pixel counts and the sums of the loops are
  integers far below \<open>2 ^ 53\<close>, on which double arithmetic is exact: they are natural
  numbers here.
\<close>

fun histogram_loop :: "u8 list \<Rightarrow> nat list \<Rightarrow> nat list" where
  "histogram_loop [] histogram = histogram"
| "histogram_loop (gray # rest) histogram =
     histogram_loop (drop 3 rest) (histogram[unat gray := histogram ! unat gray + 1])"

text \<open>
  The search loop \<^verbatim>\<open>for (let i = 0; i < 256; i++)\<close> with its \<^verbatim>\<open>continue\<close> and
  \<^verbatim>\<open>break\<close>. \<open>totalAll\<close> and \<open>sumAll\<close> are the source's \<^verbatim>\<open>total\<close> and \<^verbatim>\<open>sum\<close>. \<open>wB\<close> is a
  partial sum of the histogram and \<open>totalAll\<close> its whole sum, so \<open>totalAll - wB\<close> is
  never negative; likewise \<open>sumAll - sumB\<close>.
\<close>

function otsu_loop ::
  "nat list \<Rightarrow> nat \<Rightarrow> nat \<Rightarrow> nat \<Rightarrow> nat \<Rightarrow> nat \<Rightarrow> number \<Rightarrow> nat \<Rightarrow> nat" where
  "otsu_loop histogram totalAll sumAll i sumB wB maxVariance threshold =
     (if 256 \<le> i then threshold
      else if wB + histogram ! i = 0
      then otsu_loop histogram totalAll sumAll (i + 1) sumB (wB + histogram ! i) maxVariance threshold
      else if totalAll - (wB + histogram ! i) = 0 then threshold
      else
        let wB' = wB + histogram ! i;
            wF = totalAll - wB';
            sumB' = sumB + i * histogram ! i;
            mB = js_div (of_nat sumB') (of_nat wB');
            mF = js_div (of_nat (sumAll - sumB')) (of_nat wF);
            variance = js_mul (js_mul (js_mul (of_nat wB') (of_nat wF)) (js_sub mB mF))
                              (js_sub mB mF)
        in if maxVariance < variance
           then otsu_loop histogram totalAll sumAll (i + 1) sumB' wB' variance i
           else otsu_loop histogram totalAll sumAll (i + 1) sumB' wB' maxVariance threshold)"
  by pat_completeness auto
termination
  by (relation "measure (\<lambda>(h, totalAll, sumAll, i, rest). 256 - i)") auto

declare otsu_loop.simps [simp del]

definition calculateOtsuThreshold :: "imageData \<Rightarrow> nat" where
  "calculateOtsuThreshold img =
     (let histogram = histogram_loop (data img) (replicate 256 0);
          totalAll = fold (\<lambda>count s. s + count) histogram 0;
          sumAll = fold (\<lambda>i s. s + i * histogram ! i) [0..<256] 0
      in otsu_loop histogram totalAll sumAll 0 0 0 0 DEFAULT_THRESHOLD)"

text \<open>
  The quantity the search maximizes, stated for a cut point \<open>c\<close> on its own: the
  background is the bins up to \<open>c\<close>, the foreground the bins above, the weights are
  pixel counts, the means and the product are computed in the program's arithmetic. A
  cut with an empty class has no class mean; its variance is 0.
\<close>

definition histogram_of :: "imageData \<Rightarrow> nat list" where
  "histogram_of img = histogram_loop (data img) (replicate 256 0)"

definition weightBackground :: "nat list \<Rightarrow> nat \<Rightarrow> nat" where
  "weightBackground h c = (\<Sum>j\<le>c. h ! j)"

definition weightForeground :: "nat list \<Rightarrow> nat \<Rightarrow> nat" where
  "weightForeground h c = (\<Sum>j<256. h ! j) - weightBackground h c"

definition sumBackground :: "nat list \<Rightarrow> nat \<Rightarrow> nat" where
  "sumBackground h c = (\<Sum>j\<le>c. j * h ! j)"

definition sumForeground :: "nat list \<Rightarrow> nat \<Rightarrow> nat" where
  "sumForeground h c = (\<Sum>j<256. j * h ! j) - sumBackground h c"

definition betweenClassVariance :: "nat list \<Rightarrow> nat \<Rightarrow> number" where
  "betweenClassVariance h c =
     (if weightBackground h c = 0 \<or> weightForeground h c = 0 then 0
      else
        let mB = js_div (of_nat (sumBackground h c)) (of_nat (weightBackground h c));
            mF = js_div (of_nat (sumForeground h c)) (of_nat (weightForeground h c))
        in js_mul (js_mul (js_mul (of_nat (weightBackground h c)) (of_nat (weightForeground h c)))
                          (js_sub mB mF))
                  (js_sub mB mF))"

text \<open>
  The same quantity as the spec words it, in exact arithmetic: the weights are the
  fractions of the pixels in each class, the means are exact quotients.
\<close>

definition exactBetweenClassVariance :: "nat list \<Rightarrow> nat \<Rightarrow> rat" where
  "exactBetweenClassVariance h c =
     (if weightBackground h c = 0 \<or> weightForeground h c = 0 then 0
      else
        let total = of_nat (\<Sum>j<256. h ! j);
            wB = of_nat (weightBackground h c) / total;
            wF = of_nat (weightForeground h c) / total;
            muB = of_nat (sumBackground h c) / of_nat (weightBackground h c);
            muF = of_nat (sumForeground h c) / of_nat (weightForeground h c)
        in wB * wF * (muB - muF) * (muB - muF))"

text \<open>At most one bin is populated: no pixels, or all pixels of one luminance.\<close>

definition degenerate :: "nat list \<Rightarrow> bool" where
  "degenerate h \<longleftrightarrow> (\<exists>b \<in> {..<256}. \<forall>c \<in> {..<256}. c \<noteq> b \<longrightarrow> h ! c = 0)"

text \<open>
  The result of a search for the first maximum of \<open>V\<close> over the cut points below
  \<open>n\<close>: nothing is positive and the result is the default, or the result is the first
  cut point at which the positive maximum \<open>m\<close> is attained.
\<close>

definition first_max :: "(nat \<Rightarrow> rat) \<Rightarrow> nat \<Rightarrow> nat \<Rightarrow> rat \<Rightarrow> bool" where
  "first_max V n r m \<longleftrightarrow>
     (m = 0 \<and> r = 128 \<and> (\<forall>c \<in> {..<n}. V c \<le> 0))
     \<or> (r < n \<and> V r = m \<and> 0 < m \<and> (\<forall>c \<in> {..<n}. V c \<le> m) \<and> (\<forall>c \<in> {..<r}. V c < m))"

text \<open>The luminances the histogram counts: the first byte of every group of four.\<close>

fun luminances :: "u8 list \<Rightarrow> u8 list" where
  "luminances [] = []"
| "luminances (gray # rest) = gray # luminances (drop 3 rest)"

section \<open>The single-image pipeline (imageProcessor.js, processImage)\<close>

text \<open>
  A \<^verbatim>\<open>File\<close>: its MIME type and its size in bytes. Decoding is the browser's:
  \<open>decode f\<close> is the raster of the loaded \<^verbatim>\<open>Image\<close>, or \<open>None\<close> when \<^verbatim>\<open>onerror\<close>
  fires.
\<close>

record File =
  file_type :: string
  file_size :: nat

type_synonym decoder = "File \<Rightarrow> imageData option"

definition validateImageFile :: "File option \<Rightarrow> error + unit" where
  "validateImageFile file =
     (case file of
        None \<Rightarrow> Inl (ImageProcessingError NO_FILE)
      | Some f \<Rightarrow>
          if file_type f \<notin> set SUPPORTED_FORMATS then Inl (ImageProcessingError UNSUPPORTED_FORMAT)
          else if MAX_FILE_SIZE < file_size f then Inl (ImageProcessingError FILE_TOO_LARGE)
          else Inr ())"

definition loadImage :: "decoder \<Rightarrow> File option \<Rightarrow> error + imageData" where
  "loadImage decode file =
     (case file of
        None \<Rightarrow> Inl (BrowserException ''TypeError'')
      | Some f \<Rightarrow>
          (case decode f of
             None \<Rightarrow> Inl (ImageProcessingError LOAD_ERROR)
           | Some img \<Rightarrow>
               if width img < MIN_DIMENSION \<or> height img < MIN_DIMENSION
               then Inl (ImageProcessingError IMAGE_TOO_SMALL)
               else if MAX_DIMENSION < width img \<or> MAX_DIMENSION < height img
               then Inl (ImageProcessingError IMAGE_TOO_LARGE)
               else Inr img))"

text \<open>
  processImage returns \<^verbatim>\<open>{checkboxStates, threshold, imageData}\<close>, here a triple in
  that order. The threshold argument is \<open>None\<close> for \<^verbatim>\<open>null\<close>.
\<close>

definition processImage ::
  "decoder \<Rightarrow> drawImage \<Rightarrow> File option \<Rightarrow> nat \<Rightarrow> nat option
     \<Rightarrow> error + (bool list \<times> nat \<times> imageData)" where
  "processImage decode draw file gridSize threshold =
     (case validateImageFile file of
        Inl e \<Rightarrow> Inl e
      | Inr _ \<Rightarrow>
          (case loadImage decode file of
             Inl e \<Rightarrow> Inl e
           | Inr img \<Rightarrow>
               (case convertToGrayscale draw img gridSize gridSize of
                  Inl e \<Rightarrow> Inl e
                | Inr grayscaleData \<Rightarrow>
                    let finalThreshold =
                          (case threshold of
                             None \<Rightarrow> calculateOtsuThreshold grayscaleData
                           | Some t \<Rightarrow> t)
                    in (case applyThreshold draw grayscaleData finalThreshold gridSize of
                          Inl e \<Rightarrow> Inl e
                        | Inr checkboxStates \<Rightarrow>
                            Inr (checkboxStates, finalThreshold, grayscaleData)))))"

text \<open>
  A concrete upload for running the pipeline: a 10 by 10 image, the upper half of
  luminance 10 and the lower half of luminance 240, and a browser that decodes the
  uploaded file to it.
\<close>

definition two_tone_image :: imageData where
  "two_tone_image =
     \<lparr>width = 10, height = 10,
      data = concat (replicate 50 [10, 10, 10, 255]) @ concat (replicate 50 [240, 240, 240, 255])\<rparr>"

definition two_tone_decoder :: decoder where
  "two_tone_decoder f = Some two_tone_image"

definition two_tone_file :: File where
  "two_tone_file = \<lparr>file_type = ''image/png'', file_size = 1234\<rparr>"

section \<open>Frames of a GIF (gifFrameExtractor.js, gifProcessor.js)\<close>

text \<open>
  \<^verbatim>\<open>GIFFrame\<close>. The delay is a number or missing; the grid is \<^verbatim>\<open>null\<close> until the
  frame is processed.
\<close>

record GIFFrame =
  imageData :: imageData
  delay :: "number option"
  disposalMethod :: nat
  checkboxStates :: "bool list option"

text \<open>
  The wave effect of frame \<open>i > 0\<close>. \<^verbatim>\<open>Math.sin\<close> is the browser's and a parameter;
  \<^verbatim>\<open>Math.PI\<close> is the double nearest to \<open>\<pi>\<close>.
\<close>

definition Math_PI :: number where
  "Math_PI = 884279719003555 / 281474976710656"

definition waveSourceIndex :: "(number \<Rightarrow> number) \<Rightarrow> nat \<Rightarrow> nat \<Rightarrow> nat \<Rightarrow> nat \<Rightarrow> nat \<Rightarrow> nat" where
  "waveSourceIndex Math_sin i w h x y =
     (let wavePhase = js_div (js_mul (js_mul (of_nat i) Math_PI) 2) 15;
          waveAmplitude = min 15 (max 5 (js_div (of_nat w) 20));
          waveOffset = js_mul (Math_sin (js_add (js_mul (js_mul (js_div (of_nat x) (of_nat w))
                                                             Math_PI) 2) wavePhase))
                              waveAmplitude;
          srcY = max 0 (min (of_nat (h - 1)) (js_add (of_nat y) waveOffset))
      in (nat \<lfloor>srcY\<rfloor> * w + x) * 4)"

definition waveFrame :: "(number \<Rightarrow> number) \<Rightarrow> nat \<Rightarrow> imageData \<Rightarrow> imageData" where
  "waveFrame Math_sin i img =
     img\<lparr>data :=
       concat (map (\<lambda>k. map (\<lambda>c. byte_at (data img)
                                   (waveSourceIndex Math_sin i (width img) (height img)
                                      (k mod width img) (k div width img) + c))
                            [0..<4])
                   [0..<width img * height img])\<rparr>"

text \<open>
  extractGIFrames of gifFrameExtractor.js, the one the hook imports: fifteen frames drawn
  from the one loaded image, with delays \<open>100 + 5 * i\<close>. \<^verbatim>\<open>URL.createObjectURL(null)\<close>
  raises TypeError; \<^verbatim>\<open>getImageData\<close> raises for an empty image, which the function
  turns into a plain \<^verbatim>\<open>Error\<close>.
\<close>

definition extractGIFrames ::
  "decoder \<Rightarrow> (number \<Rightarrow> number) \<Rightarrow> File option \<Rightarrow> error + (GIFFrame list \<times> nat \<times> nat)" where
  "extractGIFrames decode Math_sin gifFile =
     (case gifFile of
        None \<Rightarrow> Inl (BrowserException ''TypeError'')
      | Some f \<Rightarrow>
          (case decode f of
             None \<Rightarrow> Inl (PlainError ''Failed to load GIF'')
           | Some img \<Rightarrow>
               if width img = 0 \<or> height img = 0
               then Inl (PlainError ''GIF frame extraction failed'')
               else Inr (map (\<lambda>i. \<lparr>imageData = (if 0 < i then waveFrame Math_sin i img else img),
                                    delay = Some (of_nat (100 + i * 5)),
                                    disposalMethod = 2,
                                    checkboxStates = None\<rparr>)
                             [0..<15],
                         width img, height img)))"

text \<open>validateGIF of gifProcessor.js, with \<^verbatim>\<open>GIF_CONFIG.SUPPORTED_FORMATS\<close>.\<close>

definition GIF_SUPPORTED_FORMATS :: "string list" where
  "GIF_SUPPORTED_FORMATS = [''image/gif'']"

definition validateGIF :: "File option \<Rightarrow> error + unit" where
  "validateGIF file =
     (case file of
        None \<Rightarrow> Inl (ImageProcessingError NO_FILE)
      | Some f \<Rightarrow>
          if file_type f \<notin> set GIF_SUPPORTED_FORMATS then Inl (ImageProcessingError UNSUPPORTED_FORMAT)
          else if 50 * 1024 * 1024 < file_size f then Inl (ImageProcessingError FILE_TOO_LARGE)
          else Inr ())"

section \<open>The hook (useAnimatedGIF.js)\<close>

text \<open>
  The state of the hook: its \<^verbatim>\<open>useState\<close> values and its three refs.
  \<^verbatim>\<open>animationRef\<close> holds the handle of the pending \<^verbatim>\<open>requestAnimationFrame\<close>
  callback, if any; \<open>error\<close> holds the error whose message is shown.
\<close>

record hookState =
  isProcessing :: bool
  isPlaying :: bool
  currentFrame :: nat
  frames :: "GIFFrame list"
  error :: "error option"
  processingProgress :: nat
  frameCount :: nat
  playbackSpeed :: number
  animationRef :: "nat option"
  lastFrameTimeRef :: number
  currentFrameRef :: nat

text \<open>The state of a freshly mounted hook: the initial values of its state and refs.\<close>

definition initial_hookState :: hookState where
  "initial_hookState =
     \<lparr>isProcessing = False, isPlaying = False, currentFrame = 0, frames = [], error = None,
      processingProgress = 0, frameCount = 0, playbackSpeed = 1, animationRef = None,
      lastFrameTimeRef = 0, currentFrameRef = 0\<rparr>"

text \<open>
  A stand-in for the browser's \<^verbatim>\<open>Math.sin\<close>, a Taylor polynomial, for running the
  frame extraction on a concrete upload; no statement below depends on its values.
\<close>

definition taylor_sin :: "number \<Rightarrow> number" where
  "taylor_sin x = fl53 (x - x ^ 3 / 6 + x ^ 5 / 120)"

text \<open>\<^verbatim>\<open>frame.delay || 100\<close>: a missing delay and a delay of 0 are falsy.\<close>

definition delay_or_100 :: "number option \<Rightarrow> number" where
  "delay_or_100 d = (case d of None \<Rightarrow> 100 | Some x \<Rightarrow> if x = 0 then 100 else x)"

text \<open>The loop over the extracted frames; the first failing frame ends it.\<close>

fun processFrames :: "drawImage \<Rightarrow> GIFFrame list \<Rightarrow> nat \<Rightarrow> nat \<Rightarrow> error + GIFFrame list" where
  "processFrames draw [] gridSize threshold = Inr []"
| "processFrames draw (frame # rest) gridSize threshold =
     (case convertImageDataToGrayscale (imageData frame) of
        Inl e \<Rightarrow> Inl e
      | Inr grayscaleData \<Rightarrow>
          (case applyThreshold draw grayscaleData threshold gridSize of
             Inl e \<Rightarrow> Inl e
           | Inr states \<Rightarrow>
               (case processFrames draw rest gridSize threshold of
                  Inl e \<Rightarrow> Inl e
                | Inr processedFrames \<Rightarrow>
                    Inr (frame\<lparr>checkboxStates := Some states,
                               delay := Some (delay_or_100 (delay frame))\<rparr>
                         # processedFrames))))"

text \<open>
  processGIF of the hook: what it returns or throws, and the state when it does (the
  timer that later resets the progress display has not fired). It calls no validation.
\<close>

definition processGIF ::
  "decoder \<Rightarrow> (number \<Rightarrow> number) \<Rightarrow> drawImage \<Rightarrow> hookState \<Rightarrow> File option \<Rightarrow> nat \<Rightarrow> nat
     \<Rightarrow> (error + GIFFrame list) \<times> hookState" where
  "processGIF decode Math_sin draw st file gridSize threshold =
     (let st0 = st\<lparr>isProcessing := True, error := None, processingProgress := 0,
                   frames := [], currentFrame := 0, isPlaying := False\<rparr>
      in case extractGIFrames decode Math_sin file of
           Inl e \<Rightarrow> (Inl e, st0\<lparr>processingProgress := 0, isProcessing := False, error := Some e\<rparr>)
         | Inr (extractedFrames, w, h) \<Rightarrow>
             (case processFrames draw extractedFrames gridSize threshold of
                Inl e \<Rightarrow>
                  (Inl e, st0\<lparr>processingProgress := 0, isProcessing := False, error := Some e\<rparr>)
              | Inr processedFrames \<Rightarrow>
                  (Inr processedFrames,
                   st0\<lparr>processingProgress := 100, frames := processedFrames,
                       frameCount := length processedFrames\<rparr>)))"




section \<open>Properties of the text export\<close>

lemma glyph_not_newline: "glyph s \<noteq> newline"
  by (simp add: glyph_def glyph_on_def glyph_off_def newline_def)

lemma exportAsText_from_within_row:
  "i mod n + length xs < n \<Longrightarrow>
   exportAsText_from i (xs @ rest) n = map glyph xs @ exportAsText_from (i + length xs) rest n"
proof (induction xs arbitrary: i)
  case Nil
  then show ?case by simp
next
  case (Cons x xs)
  from Cons.prems have lt: "i mod n + 1 < n" by simp
  then have "(i + 1) mod n = i mod n + 1"
    by (metis mod_add_left_eq mod_less)
  with Cons.prems have nz: "(i + 1) mod n \<noteq> 0" and nxt: "(i + 1) mod n + length xs < n"
    by simp_all
  from Cons.IH [OF nxt] nz show ?case by simp
qed

lemma exportAsText_from_row:
  assumes "i mod n = 0" and "length xs = n" and "0 < n"
  shows "exportAsText_from i (xs @ rest) n =
         map glyph xs @ newline # exportAsText_from (i + n) rest n"
proof -
  from assms obtain ys y where xs: "xs = ys @ [y]"
    by (metis length_greater_0_conv rev_exhaust)
  with assms have len: "length ys = n - 1" by simp
  with assms have "i mod n + length ys < n" by simp
  then have a: "exportAsText_from i (ys @ (y # rest)) n =
      map glyph ys @ exportAsText_from (i + length ys) (y # rest) n"
    by (rule exportAsText_from_within_row)
  from assms len have "(i + length ys + 1) mod n = 0"
    by (metis Suc_eq_plus1 Suc_pred' add.assoc add.commute add.right_neutral mod_add_self1)
  with a len assms show ?thesis
    by (simp add: xs add.assoc)
qed

lemma exportAsText_from_rows:
  "\<forall>r \<in> set rows. length r = n \<Longrightarrow> i mod n = 0 \<Longrightarrow> 0 < n \<Longrightarrow>
   exportAsText_from i (concat rows) n = concat (map (\<lambda>r. map glyph r @ [newline]) rows)"
proof (induction rows arbitrary: i)
  case Nil
  then show ?case by simp
next
  case (Cons r rows)
  then have "(i + n) mod n = 0" by simp
  with Cons show ?case
    by (simp add: exportAsText_from_row)
qed

lemma split_on_line:
  "sep \<notin> set l \<Longrightarrow> split_on sep (l @ sep # rest) = l # split_on sep rest"
  by (induction l) auto

lemma split_on_lines:
  "\<forall>l \<in> set ls. sep \<notin> set l \<Longrightarrow>
   split_on sep (concat (map (\<lambda>l. l @ [sep]) ls)) = ls @ [[]]"
  by (induction ls) (auto simp: split_on_line)

lemma take_drop_nth:
  "k + n \<le> length xs \<Longrightarrow> take n (drop k xs) = map (\<lambda>c. xs ! (k + c)) [0..<n]"
  by (rule nth_equalityI) auto

lemma concat_grid_rows:
  "length grid = m * n \<Longrightarrow> concat (map (grid_row grid n) [0..<m]) = grid"
proof (induction m arbitrary: grid rule: nat.induct)
  case zero
  then show ?case by simp
next
  case (Suc m)
  let ?front = "take (m * n) grid"
  from Suc.prems have lf: "length ?front = m * n" by simp
  have rows_front: "map (grid_row grid n) [0..<m] = map (grid_row ?front n) [0..<m]"
  proof (rule map_cong [OF refl])
    fix r assume "r \<in> set [0..<m]"
    then have "r < m" by simp
    then have "r * n + n \<le> m * n"
      by (metis Suc_leI mult_Suc mult_le_mono1 add.commute)
    then show "grid_row grid n r = grid_row ?front n r"
      by (auto simp: grid_row_def)
  qed
  have last_row: "grid_row grid n m = drop (m * n) grid"
  proof -
    from Suc.prems have "m * n + n \<le> length grid" by simp
    from take_drop_nth [OF this] Suc.prems show ?thesis
      by (simp add: grid_row_def)
  qed
  have "concat (map (grid_row grid n) [0..<Suc m]) =
        concat (map (grid_row ?front n) [0..<m]) @ drop (m * n) grid"
    by (simp add: rows_front last_row)
  also have "\<dots> = ?front @ drop (m * n) grid"
    by (simp only: Suc.IH [OF lf])
  finally show ?case by simp
qed

lemma exportAsText_rows:
  assumes "length grid = n * n" and "0 < n"
  shows "exportAsText grid n =
         concat (map (\<lambda>r. map glyph r @ [newline]) (map (grid_row grid n) [0..<n]))"
proof -
  have "exportAsText grid n = exportAsText_from 0 (concat (map (grid_row grid n) [0..<n])) n"
    by (simp add: exportAsText_def concat_grid_rows [OF assms(1)])
  also have "\<dots> = concat (map (\<lambda>r. map glyph r @ [newline]) (map (grid_row grid n) [0..<n]))"
    using assms(2) by (intro exportAsText_from_rows) (simp_all add: grid_row_def)
  finally show ?thesis .
qed

lemma exportAsText_split:
  assumes "length grid = n * n" and "0 < n"
  shows "split_on newline (exportAsText grid n) =
         map (\<lambda>r. map glyph (grid_row grid n r)) [0..<n] @ [[]]"
proof -
  have "exportAsText grid n =
        concat (map (\<lambda>l. l @ [newline]) (map (\<lambda>r. map glyph (grid_row grid n r)) [0..<n]))"
    by (simp add: exportAsText_rows [OF assms] comp_def)
  moreover have "\<forall>l \<in> set (map (\<lambda>r. map glyph (grid_row grid n r)) [0..<n]). newline \<notin> set l"
    by (auto simp: glyph_not_newline [symmetric])
  ultimately show ?thesis
    by (simp only: split_on_lines)
qed

lemma grid_row_all:
  assumes "length grid = n * n" and "r < n" and "\<forall>s \<in> set grid. s = v"
  shows "map glyph (grid_row grid n r) = replicate n (glyph v)"
proof -
  have "grid ! (r * n + c) = v" if "c < n" for c
  proof -
    from that assms(2) have "r * n + c < r * n + n" by simp
    also from assms(2) have "r * n + n \<le> n * n"
      by (metis Suc_leI mult_Suc mult_le_mono1 add.commute)
    finally have "grid ! (r * n + c) \<in> set grid"
      using assms(1) by simp
    with assms(3) show ?thesis by blast
  qed
  then have "map glyph (grid_row grid n r) = map (\<lambda>c. glyph v) [0..<n]"
    by (simp add: grid_row_def)
  then show ?thesis by (simp add: map_replicate_const)
qed

lemma exportAsText_all:
  assumes "length grid = n * n" and "0 < n" and "\<forall>s \<in> set grid. s = v"
  shows "split_on newline (exportAsText grid n) = replicate n (replicate n (glyph v)) @ [[]]"
proof -
  have "map (\<lambda>r. map glyph (grid_row grid n r)) [0..<n] =
        map (\<lambda>r. replicate n (glyph v)) [0..<n]"
    using assms by (intro map_cong [OF refl]) (simp add: grid_row_all)
  then show ?thesis
    by (simp add: exportAsText_split [OF assms(1,2)] map_replicate_const)
qed

text \<open>
  C9. For a grid of \<open>gridSize * gridSize\<close> cells with \<open>gridSize \<ge> 1\<close>, the exported text
  splits at its line breaks into exactly \<open>gridSize\<close> lines followed by the empty
  piece after the final line break; line \<open>r\<close> consists of exactly the \<open>gridSize\<close>
  glyphs of the cells \<open>r * gridSize + c\<close>, one glyph per cell. A grid of only
  unchecked cells gives lines of only the off glyph, a grid of only checked cells gives
  lines of only the on glyph.
\<close>

theorem exportAsText_lines:
  assumes "length grid = gridSize * gridSize" and "1 \<le> gridSize"
  shows "split_on newline (exportAsText grid gridSize) =
           map (\<lambda>r. map (\<lambda>c. glyph (grid ! (r * gridSize + c))) [0..<gridSize]) [0..<gridSize]
             @ [[]]
       \<and> length (exportAsText grid gridSize) = gridSize * gridSize + gridSize
       \<and> ((\<forall>s \<in> set grid. \<not> s) \<longrightarrow>
            split_on newline (exportAsText grid gridSize) =
              replicate gridSize (replicate gridSize glyph_off) @ [[]])
       \<and> ((\<forall>s \<in> set grid. s) \<longrightarrow>
            split_on newline (exportAsText grid gridSize) =
              replicate gridSize (replicate gridSize glyph_on) @ [[]])"
proof -
  from assms have pos: "0 < gridSize" by simp
  have a: "split_on newline (exportAsText grid gridSize) =
           map (\<lambda>r. map (\<lambda>c. glyph (grid ! (r * gridSize + c))) [0..<gridSize]) [0..<gridSize]
             @ [[]]"
    using exportAsText_split [OF assms(1) pos] by (simp add: grid_row_def comp_def)
  have "length (exportAsText grid gridSize) =
        sum_list (map (\<lambda>r. gridSize + 1) [0..<gridSize])"
    by (simp add: exportAsText_rows [OF assms(1) pos] length_concat comp_def grid_row_def)
  then have b: "length (exportAsText grid gridSize) = gridSize * gridSize + gridSize"
    by (simp add: sum_list_triv)
  have c: "split_on newline (exportAsText grid gridSize) =
           replicate gridSize (replicate gridSize glyph_off) @ [[]]" if "\<forall>s \<in> set grid. \<not> s"
    using exportAsText_all [OF assms(1) pos, of False] that by (simp add: glyph_def)
  have d: "split_on newline (exportAsText grid gridSize) =
           replicate gridSize (replicate gridSize glyph_on) @ [[]]" if "\<forall>s \<in> set grid. s"
    using exportAsText_all [OF assms(1) pos, of True] that by (simp add: glyph_def)
  from a b c d show ?thesis by blast
qed

theorem exportAsText_lines_witness:
  "split_on newline (exportAsText [True, False, False, True] 2) =
     [[glyph_on, glyph_off], [glyph_off, glyph_on], []]
   \<and> length (exportAsText [True, False, False, True] 2) = 6
   \<and> split_on newline (exportAsText [False, False, False, False] 2) =
     [[glyph_off, glyph_off], [glyph_off, glyph_off], []]
   \<and> split_on newline (exportAsText [True, True, True, True] 2) =
     [[glyph_on, glyph_on], [glyph_on, glyph_on], []]"
proof -
  have two: "[0..<2] = [0, Suc 0]" "replicate 2 x = [x, x]" for x :: 'a
    by (simp_all add: numeral_2_eq_2)
  have "length [True, False, False, True] = 2 * 2" "length [False, False, False, False] = 2 * 2"
       "length [True, True, True, True] = 2 * 2" "(1::nat) \<le> 2"
    by simp_all
  from exportAsText_lines [OF this(1,4)] exportAsText_lines [OF this(2,4)]
       exportAsText_lines [OF this(3,4)]
  show ?thesis
    by (simp add: two glyph_def)
qed

section \<open>Properties of double-precision rounding\<close>

lemma ilog2_ge1:
  assumes "1 \<le> x"
  shows "2 powi (ilog2 x) \<le> x" and "x < 2 powi (ilog2 x + 1)"
proof -
  let ?b = "bitlen \<lfloor>x\<rfloor>"
  from assms have n: "0 < \<lfloor>x\<rfloor>" by simp
  then have b1: "1 \<le> ?b" by (auto simp: bitlen_alt_def)
  from assms have e: "ilog2 x = ?b - 1" by (simp add: ilog2_def)
  from bitlen_bounds [OF n] have lo: "2 ^ nat (?b - 1) \<le> \<lfloor>x\<rfloor>" and hi: "\<lfloor>x\<rfloor> < 2 ^ nat ?b"
    by simp_all
  from lo have "(2::rat) ^ nat (?b - 1) \<le> of_int \<lfloor>x\<rfloor>"
    by (simp only: numeral_power_le_of_int_cancel_iff)
  also have "\<dots> \<le> x" by (rule of_int_floor_le)
  finally have "(2::rat) ^ nat (?b - 1) \<le> x" .
  with b1 show "2 powi (ilog2 x) \<le> x"
    by (simp add: e power_int_def)
  from hi have "\<lfloor>x\<rfloor> + 1 \<le> 2 ^ nat ?b" by simp
  then have "(of_int (\<lfloor>x\<rfloor> + 1) :: rat) \<le> 2 ^ nat ?b"
    by (simp only: of_int_le_numeral_power_cancel_iff)
  moreover have "x < of_int (\<lfloor>x\<rfloor> + 1)" by linarith
  ultimately have "x < 2 ^ nat ?b" by (rule less_le_trans [rotated])
  with b1 show "x < 2 powi (ilog2 x + 1)"
    by (simp add: e power_int_def)
qed

lemma ilog2_lt1:
  assumes "0 < x" and "x < 1"
  shows "2 powi (ilog2 x) \<le> x" and "x < 2 powi (ilog2 x + 1)"
proof -
  let ?m = "\<lceil>1 / x\<rceil> - 1"
  let ?b = "bitlen ?m"
  from assms have inv: "1 < 1 / x" by simp
  then have m: "0 < ?m" by linarith
  then have b1: "1 \<le> ?b" by (auto simp: bitlen_alt_def)
  from assms have e: "ilog2 x = - ?b" by (simp add: ilog2_def)
  from bitlen_bounds [OF m] have lo: "2 ^ nat (?b - 1) \<le> ?m" and hi: "?m < 2 ^ nat ?b"
    by simp_all
  from hi have "\<lceil>1 / x\<rceil> \<le> 2 ^ nat ?b" by simp
  then have "(of_int \<lceil>1 / x\<rceil> :: rat) \<le> 2 ^ nat ?b"
    by (simp only: of_int_le_numeral_power_cancel_iff)
  moreover have "1 / x \<le> of_int \<lceil>1 / x\<rceil>" by (rule le_of_int_ceiling)
  ultimately have "1 / x \<le> 2 ^ nat ?b" by (rule order_trans [rotated])
  then have "1 \<le> 2 ^ nat ?b * x"
    using assms(1) by (simp add: pos_divide_le_eq)
  then have "1 / 2 ^ nat ?b \<le> x"
    by (simp add: pos_divide_le_eq mult.commute)
  moreover have "2 powi (- ?b) = 1 / (2::rat) ^ nat ?b"
    using b1 by (simp add: power_int_minus_divide power_int_def power_one_over)
  ultimately show "2 powi (ilog2 x) \<le> x"
    by (simp only: e)
  from lo have "(2::rat) ^ nat (?b - 1) \<le> of_int ?m"
    by (simp only: numeral_power_le_of_int_cancel_iff)
  moreover have "of_int ?m < 1 / x" by linarith
  ultimately have "2 ^ nat (?b - 1) < 1 / x" by (rule le_less_trans)
  then have "2 ^ nat (?b - 1) * x < 1"
    using assms(1) by (simp add: pos_less_divide_eq)
  then have "x < 1 / 2 ^ nat (?b - 1)"
    by (simp add: pos_less_divide_eq mult.commute)
  moreover have "2 powi (- ?b + 1) = 1 / (2::rat) ^ nat (?b - 1)"
  proof -
    have "- ?b + 1 = - (?b - 1)" by simp
    then have "(2::rat) powi (- ?b + 1) = 1 / 2 powi (?b - 1)"
      by (simp only: power_int_minus_divide)
    with b1 show ?thesis by (simp add: power_int_def power_one_over)
  qed
  ultimately show "x < 2 powi (ilog2 x + 1)"
    by (simp only: e)
qed

lemma ilog2_bounds:
  assumes "0 < x"
  shows "2 powi (ilog2 x) \<le> x" and "x < 2 powi (ilog2 x + 1)"
  using assms ilog2_ge1 [of x] ilog2_lt1 [of x] by (cases "1 \<le> x"; simp)+



lemma round_even_error: "\<bar>of_int (round_even y) - y\<bar> \<le> 1 / 2"
proof -
  have "of_int \<lfloor>y\<rfloor> \<le> y" "y < of_int \<lfloor>y\<rfloor> + 1" by linarith+
  then show ?thesis
    by (auto simp: round_even_def Let_def abs_le_iff)
qed

lemma fl53_zero: "fl53 0 = 0"
  by (simp add: fl53_def)

lemma fl53_error: "\<bar>fl53 x - x\<bar> \<le> \<bar>x\<bar> / 2 ^ 53"
proof (cases "x = 0")
  case True
  then show ?thesis by (simp add: fl53_def)
next
  case False
  define u :: rat where "u = 2 powi (ilog2 \<bar>x\<bar> - 52)"
  define m where "m = round_even (\<bar>x\<bar> / u)"
  have upos: "0 < u" by (simp add: u_def)
  from False have fl: "fl53 x = sgn x * of_int m * u"
    by (simp add: fl53_def Let_def u_def m_def)
  from False have "0 < \<bar>x\<bar>" by simp
  from ilog2_bounds(1) [OF this] have "2 powi (ilog2 \<bar>x\<bar>) \<le> \<bar>x\<bar>" .
  moreover have "(2::rat) powi (ilog2 \<bar>x\<bar>) = u * 2 ^ 52"
    by (simp add: u_def power_int_diff)
  ultimately have ule: "u * 2 ^ 52 \<le> \<bar>x\<bar>" by simp
  have "sgn x * (of_int m * u - \<bar>x\<bar>) = sgn x * of_int m * u - sgn x * \<bar>x\<bar>"
    by (simp add: right_diff_distrib mult.assoc)
  then have "fl53 x - x = sgn x * (of_int m * u - \<bar>x\<bar>)"
    by (simp only: fl mult_sgn_abs)
  then have "\<bar>fl53 x - x\<bar> = \<bar>of_int m * u - \<bar>x\<bar>\<bar>"
    using False by (simp add: abs_mult abs_sgn_eq)
  also have "of_int m * u - \<bar>x\<bar> = (of_int m - \<bar>x\<bar> / u) * u"
    using upos by (simp add: algebra_simps)
  also have "\<bar>\<dots>\<bar> = \<bar>of_int m - \<bar>x\<bar> / u\<bar> * u"
    using upos by (simp add: abs_mult)
  also have "\<dots> \<le> 1 / 2 * u"
    using upos round_even_error [of "\<bar>x\<bar> / u"] by (intro mult_right_mono) (simp_all add: m_def)
  also have "\<dots> \<le> \<bar>x\<bar> / 2 ^ 53"
    using ule by simp
  finally show ?thesis .
qed


lemma fl53_pos: "0 < x \<Longrightarrow> 0 < fl53 x"
proof -
  assume "0 < x"
  then have "\<bar>x\<bar> / 2 ^ 53 < x" by simp
  with fl53_error [of x] show ?thesis by linarith
qed

lemma fl53_neg: "x < 0 \<Longrightarrow> fl53 x < 0"
proof -
  assume "x < 0"
  then have "\<bar>x\<bar> / 2 ^ 53 < - x" by simp
  with fl53_error [of x] show ?thesis by linarith
qed

lemma fl53_bounds:
  assumes "0 \<le> x"
  shows "x * (1 - 1 / 2 ^ 53) \<le> fl53 x" and "fl53 x \<le> x * (1 + 1 / 2 ^ 53)"
proof -
  from assms have "\<bar>x\<bar> / 2 ^ 53 = x * (1 / 2 ^ 53)" by simp
  with fl53_error [of x] have "\<bar>fl53 x - x\<bar> \<le> x * (1 / 2 ^ 53)" by simp
  then show "x * (1 - 1 / 2 ^ 53) \<le> fl53 x" and "fl53 x \<le> x * (1 + 1 / 2 ^ 53)"
    by (simp_all only: right_diff_distrib distrib_left mult_1_right abs_le_iff) linarith+
qed

section \<open>Properties of grayscale conversion\<close>

lemma fl53_step:
  assumes "0 \<le> a" and "a * (1 - 1 / 2 ^ 53) ^ k \<le> y" and "y \<le> a * (1 + 1 / 2 ^ 53) ^ k"
  shows "a * (1 - 1 / 2 ^ 53) ^ Suc k \<le> fl53 y" and "fl53 y \<le> a * (1 + 1 / 2 ^ 53) ^ Suc k"
proof -
  let ?lo = "1 - 1 / 2 ^ 53 :: rat" and ?hi = "1 + 1 / 2 ^ 53 :: rat"
  have lo: "0 \<le> ?lo" and hi: "0 \<le> ?hi" by simp_all
  from assms(1) lo have "0 \<le> a * ?lo ^ k" by simp
  with assms(2) have y: "0 \<le> y" by simp
  have "a * ?lo ^ Suc k = (a * ?lo ^ k) * ?lo" by simp
  also have "\<dots> \<le> y * ?lo" using assms(2) lo by (rule mult_right_mono)
  also have "\<dots> \<le> fl53 y" using fl53_bounds(1) [OF y] .
  finally show "a * ?lo ^ Suc k \<le> fl53 y" .
  have "fl53 y \<le> y * ?hi" using fl53_bounds(2) [OF y] .
  also have "\<dots> \<le> (a * ?hi ^ k) * ?hi" using assms(3) hi by (rule mult_right_mono)
  also have "\<dots> = a * ?hi ^ Suc k" by simp
  finally show "fl53 y \<le> a * ?hi ^ Suc k" .
qed

lemma weighted_term:
  assumes "0 \<le> w" and "0 \<le> v"
  shows "v * w * (1 - 1 / 2 ^ 53) ^ 2 \<le> js_mul v (fl53 w)"
    and "js_mul v (fl53 w) \<le> v * w * (1 + 1 / 2 ^ 53) ^ 2"
proof -
  let ?lo = "1 - 1 / 2 ^ 53 :: rat" and ?hi = "1 + 1 / 2 ^ 53 :: rat"
  from fl53_bounds [OF assms(1)] have c: "w * ?lo \<le> fl53 w" "fl53 w \<le> w * ?hi" .
  from assms have a: "0 \<le> v * w" by simp
  have l: "v * w * ?lo ^ 1 \<le> v * fl53 w"
    using mult_left_mono [OF c(1) assms(2)] by (simp add: mult.assoc)
  have u: "v * fl53 w \<le> v * w * ?hi ^ 1"
    using mult_left_mono [OF c(2) assms(2)] by (simp add: mult.assoc)
  from fl53_step [OF a l u]
  show "v * w * ?lo ^ 2 \<le> js_mul v (fl53 w)" and "js_mul v (fl53 w) \<le> v * w * ?hi ^ 2"
    by (simp_all add: js_mul_def numeral_2_eq_2)
qed

lemma weighted_sum_bounds:
  "exact_luminance r g b * (1 - 1 / 2 ^ 53) ^ 4 \<le> weighted_sum r g b"
  "weighted_sum r g b \<le> exact_luminance r g b * (1 + 1 / 2 ^ 53) ^ 4"
proof -
  let ?lo = "1 - 1 / 2 ^ 53 :: rat" and ?hi = "1 + 1 / 2 ^ 53 :: rat"
  define R G B :: rat where "R = of_nat (unat r)" and "G = of_nat (unat g)" and "B = of_nat (unat b)"
  have nn: "0 \<le> R" "0 \<le> G" "0 \<le> B"
    unfolding R_def G_def B_def by (rule of_nat_0_le_iff)+
  define tR tG tB where "tR = js_mul R GRAYSCALE_WEIGHTS_red"
    and "tG = js_mul G GRAYSCALE_WEIGHTS_green" and "tB = js_mul B GRAYSCALE_WEIGHTS_blue"
  define aR aG aB :: rat where "aR = R * (299 / 1000)" and "aG = G * (587 / 1000)"
    and "aB = B * (114 / 1000)"
  have ann: "0 \<le> aR" "0 \<le> aG" "0 \<le> aB" using nn by (simp_all add: aR_def aG_def aB_def)
  have bR: "aR * ?lo ^ 2 \<le> tR" "tR \<le> aR * ?hi ^ 2"
    using weighted_term [of "299 / 1000" R] nn
    by (simp_all add: tR_def aR_def GRAYSCALE_WEIGHTS_red_def)
  have bG: "aG * ?lo ^ 2 \<le> tG" "tG \<le> aG * ?hi ^ 2"
    using weighted_term [of "587 / 1000" G] nn
    by (simp_all add: tG_def aG_def GRAYSCALE_WEIGHTS_green_def)
  have bB: "aB * ?lo ^ 2 \<le> tB" "tB \<le> aB * ?hi ^ 2"
    using weighted_term [of "114 / 1000" B] nn
    by (simp_all add: tB_def aB_def GRAYSCALE_WEIGHTS_blue_def)
  have s1: "(aR + aG) * ?lo ^ 3 \<le> js_add tR tG" "js_add tR tG \<le> (aR + aG) * ?hi ^ 3"
  proof -
    have l: "(aR + aG) * ?lo ^ 2 \<le> tR + tG" using bR(1) bG(1) by (simp add: distrib_right)
    have u: "tR + tG \<le> (aR + aG) * ?hi ^ 2" using bR(2) bG(2) by (simp add: distrib_right)
    from ann have "0 \<le> aR + aG" by simp
    from fl53_step [OF this l u]
    show "(aR + aG) * ?lo ^ 3 \<le> js_add tR tG" "js_add tR tG \<le> (aR + aG) * ?hi ^ 3"
      by (simp_all add: js_add_def numeral_3_eq_3 numeral_2_eq_2)
  qed
  have s2: "(aR + aG + aB) * ?lo ^ 4 \<le> js_add (js_add tR tG) tB"
           "js_add (js_add tR tG) tB \<le> (aR + aG + aB) * ?hi ^ 4"
  proof -
    have "aB * ?lo ^ 3 \<le> aB * ?lo ^ 2"
      using ann by (intro mult_left_mono power_decreasing) simp_all
    with bB(1) s1(1) have l: "(aR + aG + aB) * ?lo ^ 3 \<le> js_add tR tG + tB"
      by (simp add: distrib_right)
    have "aB * ?hi ^ 2 \<le> aB * ?hi ^ 3"
      using ann by (intro mult_left_mono power_increasing) simp_all
    with bB(2) s1(2) have u: "js_add tR tG + tB \<le> (aR + aG + aB) * ?hi ^ 3"
      by (simp add: distrib_right)
    from ann have "0 \<le> aR + aG + aB" by simp
    from fl53_step [OF this l u]
    show "(aR + aG + aB) * ?lo ^ 4 \<le> js_add (js_add tR tG) tB"
         "js_add (js_add tR tG) tB \<le> (aR + aG + aB) * ?hi ^ 4"
      by (simp_all add: js_add_def eval_nat_numeral)
  qed
  have x: "exact_luminance r g b = aR + aG + aB"
    unfolding exact_luminance_def aR_def aG_def aB_def R_def G_def B_def
    by (simp add: add_divide_distrib)
  have w: "weighted_sum r g b = js_add (js_add tR tG) tB"
    unfolding weighted_sum_def tR_def tG_def tB_def R_def G_def B_def ..
  from s2 show "exact_luminance r g b * ?lo ^ 4 \<le> weighted_sum r g b"
    and "weighted_sum r g b \<le> exact_luminance r g b * ?hi ^ 4"
    by (simp_all only: x w)
qed

lemma luminance_weighted: "luminance r g b = Math_round (weighted_sum r g b)"
  by (simp only: luminance_def)

lemma exact_luminance_range: "0 \<le> exact_luminance r g b" "exact_luminance r g b \<le> 255"
proof -
  have n: "unat v \<le> 255" for v :: u8
    using unsigned_less [of v, where 'a = nat] by simp
  have "(of_nat (unat v) :: rat) \<le> of_nat 255" for v :: u8
    using n [of v] by (simp only: of_nat_le_iff)
  then have le: "(of_nat (unat v) :: rat) \<le> 255" for v :: u8
    by simp
  have ge: "(0::rat) \<le> of_nat (unat v)" for v :: u8
    by (rule of_nat_0_le_iff)
  show "0 \<le> exact_luminance r g b"
    unfolding exact_luminance_def using ge [of r] ge [of g] ge [of b] by simp
  show "exact_luminance r g b \<le> 255"
    unfolding exact_luminance_def using le [of r] le [of g] le [of b] by simp
qed

lemma weighted_sum_close:
  "\<bar>weighted_sum r g b - exact_luminance r g b\<bar> \<le> 1 / 10 ^ 12"
proof -
  let ?x = "exact_luminance r g b"
  note x = exact_luminance_range [of r g b]
  have lo: "(1 - 1 / 10 ^ 15 :: rat) \<le> (1 - 1 / 2 ^ 53) ^ 4"
    by (simp add: power_divide)
  have hi: "(1 + 1 / 2 ^ 53) ^ 4 \<le> (1 + 1 / 10 ^ 15 :: rat)"
    by (simp add: power_divide)
  have "?x * (1 - 1 / 10 ^ 15) \<le> ?x * (1 - 1 / 2 ^ 53) ^ 4"
    using lo x(1) by (rule mult_left_mono)
  with weighted_sum_bounds(1) [of r g b] have l: "?x * (1 - 1 / 10 ^ 15) \<le> weighted_sum r g b"
    by (rule order_trans [rotated])
  have "?x * (1 + 1 / 2 ^ 53) ^ 4 \<le> ?x * (1 + 1 / 10 ^ 15)"
    using hi x(1) by (rule mult_left_mono)
  with weighted_sum_bounds(2) [of r g b] have u: "weighted_sum r g b \<le> ?x * (1 + 1 / 10 ^ 15)"
    by (rule order_trans)
  have "?x * (1 / 10 ^ 15) \<le> 255 * (1 / 10 ^ 15)"
    using x(2) by (intro mult_right_mono) simp_all
  then have "?x * (1 / 10 ^ 15) \<le> 1 / 10 ^ 12" by simp
  with l u show ?thesis
    by (simp only: right_diff_distrib distrib_left mult_1_right abs_le_iff) linarith
qed

lemma weighted_sum_quarter:
  "\<bar>weighted_sum r g b - exact_luminance r g b\<bar> < 1 / 4"
proof -
  have "(1::rat) / 10 ^ 12 < 1 / 4" by simp
  with weighted_sum_close [of r g b] show ?thesis by (rule le_less_trans)
qed

lemma luminance_nearest:
  "\<bar>of_int (luminance r g b) - exact_luminance r g b\<bar> \<le> 1 / 2 + 1 / 10 ^ 12"
proof -
  have "\<bar>of_int (Math_round s) - s\<bar> \<le> 1 / 2" for s :: rat
    unfolding Math_round_def by linarith
  from this [of "weighted_sum r g b"] weighted_sum_close [of r g b] show ?thesis
    unfolding luminance_weighted by linarith
qed

lemma luminance_exact_round:
  assumes "frac (exact_luminance r g b) \<noteq> 1 / 2"
  shows "luminance r g b = Math_round (exact_luminance r g b)"
proof -
  define N :: int where "N = 299 * int (unat r) + 587 * int (unat g) + 114 * int (unat b) + 500"
  define m where "m = Math_round (exact_luminance r g b)"
  have e: "exact_luminance r g b + 1 / 2 = of_int N / 1000"
    by (simp add: exact_luminance_def N_def field_simps)
  have m: "m = \<lfloor>(of_int N :: rat) / 1000\<rfloor>"
    unfolding m_def Math_round_def e ..
  then have "m = N div 1000"
    by (simp add: floor_divide_of_int_eq [of N 1000, where ?'a = rat, simplified])
  then have lo: "1000 * m \<le> N" and hi: "N \<le> 1000 * m + 999"
    by linarith+
  have "N \<noteq> 1000 * m"
  proof
    assume "N = 1000 * m"
    with e have x: "exact_luminance r g b = of_int m - 1 / 2" by simp
    have "\<lfloor>exact_luminance r g b\<rfloor> = m - 1"
      unfolding x by (rule floor_unique) simp_all
    then have "frac (exact_luminance r g b) = exact_luminance r g b - of_int (m - 1)"
      by (simp only: frac_def)
    also have "\<dots> = 1 / 2"
      unfolding x by simp
    finally show False using assms by simp
  qed
  with lo have lo': "1000 * m + 1 \<le> N" by linarith
  from lo' have "(of_int (1000 * m + 1) :: rat) \<le> of_int N" by (simp only: of_int_le_iff)
  then have a: "of_int m + 1 / 1000 \<le> exact_luminance r g b + 1 / 2"
    unfolding e by (simp add: field_simps)
  from hi have "(of_int N :: rat) \<le> of_int (1000 * m + 999)" by (simp only: of_int_le_iff)
  then have b: "exact_luminance r g b + 1 / 2 \<le> of_int m + 999 / 1000"
    unfolding e by (simp add: field_simps)
  have q: "(1::rat) / 10 ^ 12 < 1 / 1000" by simp
  from weighted_sum_close [of r g b] q
  have c: "\<bar>weighted_sum r g b - exact_luminance r g b\<bar> < 1 / 1000" by (rule le_less_trans)
  from a b c have "of_int m \<le> weighted_sum r g b + 1 / 2"
    and "weighted_sum r g b + 1 / 2 < of_int m + 1"
    by linarith+
  then have "\<lfloor>weighted_sum r g b + 1 / 2\<rfloor> = m" by (rule floor_unique)
  then show ?thesis
    unfolding luminance_weighted Math_round_def m_def Math_round_def .
qed

lemma luminance_range: "0 \<le> luminance r g b" "luminance r g b \<le> 255"
proof -
  note c = weighted_sum_quarter [of r g b] and x = exact_luminance_range [of r g b]
  from c x have "0 \<le> weighted_sum r g b + 1 / 2" by linarith
  then show "0 \<le> luminance r g b"
    unfolding luminance_weighted Math_round_def by simp
  from c x have "weighted_sum r g b + 1 / 2 < 256" by linarith
  then have "\<lfloor>weighted_sum r g b + 1 / 2\<rfloor> < 256"
    by (simp only: floor_less_iff of_int_numeral)
  then show "luminance r g b \<le> 255"
    unfolding luminance_weighted Math_round_def by simp
qed

lemma luminance_gray: "luminance v v v = uint v"
proof -
  have "exact_luminance v v v = of_nat (unat v)"
    unfolding exact_luminance_def by (simp add: algebra_simps)
  also have "\<dots> = of_int (uint v)"
    by simp
  finally have x: "exact_luminance v v v = of_int (uint v)" .
  from weighted_sum_quarter [of v v v]
  have "of_int (uint v) \<le> weighted_sum v v v + 1 / 2"
    and "weighted_sum v v v + 1 / 2 < of_int (uint v) + 1"
    unfolding x by linarith+
  then show ?thesis
    unfolding luminance_weighted Math_round_def by (rule floor_unique)
qed

lemma uint_toUint8Clamped: "0 \<le> n \<Longrightarrow> n \<le> 255 \<Longrightarrow> uint (toUint8Clamped n) = n"
  by (simp add: toUint8Clamped_def uint_word_of_int take_bit_int_eq_self)

lemma uint_gray: "uint (toUint8Clamped (luminance r g b)) = luminance r g b"
  using luminance_range [of r g b] by (rule uint_toUint8Clamped)

lemma toUint8Clamped_gray: "toUint8Clamped (luminance v v v) = v"
proof -
  have "uint (toUint8Clamped (luminance v v v)) = luminance v v v"
    by (rule uint_gray)
  also have "\<dots> = uint v"
    by (rule luminance_gray)
  finally show ?thesis by (simp only: word_uint_eq_iff)
qed

text \<open>
  Two values of the luminance. For red 0, green 204, blue 68 the exact weighted sum is
  127.5, the sum of the doubles is 127.49999999999999, and the result is 127, where
  rounding the exact sum gives 128 whether a tie goes up or to the even neighbour.
\<close>

lemma luminance_examples:
  "luminance 255 0 0 = 76" "luminance 0 204 68 = 127"
  by code_simp+

lemma exact_luminance_example:
  "exact_luminance 0 204 68 = 255 / 2"
  "Math_round (255 / 2) = 128" "round_even (255 / 2) = 128"
  by code_simp+

lemma convert_one_pixel:
  "convertImageDataToGrayscale \<lparr>width = 1, height = 1, data = [r, g, b, a]\<rparr>
     = Inr \<lparr>width = 1, height = 1,
            data = [toUint8Clamped (luminance r g b), toUint8Clamped (luminance r g b),
                    toUint8Clamped (luminance r g b), a]\<rparr>"
proof -
  let ?G = "toUint8Clamped (luminance r g b)"
  have g: "gray_at [r, g, b, a] 0 = ?G"
    by (simp add: gray_at_def)
  have "grayscale_copy [r, g, b, a] [0, 0, 0, 0] 0 = grayscale_copy [r, g, b, a] [?G, ?G, ?G, a] (0 + 4)"
    by (subst grayscale_copy.simps) (simp add: g byte_at_def numeral_3_eq_3)
  also have "\<dots> = [?G, ?G, ?G, a]"
    by (subst grayscale_copy.simps) simp
  finally have "grayscale_copy [r, g, b, a] [0, 0, 0, 0] 0 = [?G, ?G, ?G, a]" .
  moreover have "replicate (4 * 1 * 1) (0 :: u8) = [0, 0, 0, 0]"
    by (simp add: numeral_eq_Suc)
  ultimately show ?thesis
    by (simp only: convertImageDataToGrayscale_def imageData.select_convs) simp
qed


lemma grayscale_copy_length: "length (grayscale_copy d out i) = length out"
proof (induction d out i rule: grayscale_copy.induct)
  case (1 d out i)
  show ?case
  proof (cases "i < length d")
    case True
    from "1" [OF True] True show ?thesis
      by (subst grayscale_copy.simps) (simp only: if_True length_list_update)
  next
    case False
    then show ?thesis
      by (subst grayscale_copy.simps) simp
  qed
qed

lemma grayscale_copy_nth:
  assumes "4 dvd i" and "4 dvd length d" and "length out = length d"
    and "c < 4" and "4 * k + c < length d"
  shows "grayscale_copy d out i ! (4 * k + c) =
           (if 4 * k < i then out ! (4 * k + c)
            else if c = 3 then d ! (4 * k + 3) else gray_at d (4 * k))"
  using assms
proof (induction d out i rule: grayscale_copy.induct)
  case (1 d out i)
  show ?case
  proof (cases "i < length d")
    case False
    with "1.prems" have "4 * k < i" by simp
    with False show ?thesis
      by (subst grayscale_copy.simps) simp
  next
    case True
    let ?out = "out[i := gray_at d i, i + 1 := gray_at d i, i + 2 := gray_at d i,
                    i + 3 := byte_at d (i + 3)]"
    from True "1.prems"(1,2) have i3: "i + 3 < length d" by presburger
    have step: "grayscale_copy d out i = grayscale_copy d ?out (i + 4)"
      using True by (subst grayscale_copy.simps) simp
    from "1.prems" have "4 dvd i + 4" "length ?out = length d" by simp_all
    from "1.IH" [OF True this(1) "1.prems"(2) this(2) "1.prems"(4,5)]
    have ih: "grayscale_copy d ?out (i + 4) ! (4 * k + c) =
           (if 4 * k < i + 4 then ?out ! (4 * k + c)
            else if c = 3 then d ! (4 * k + 3) else gray_at d (4 * k))" .
    from "1.prems"(1) obtain j where j: "i = 4 * j" by (elim dvdE)
    have "k < j \<or> k = j \<or> j < k" by arith
    then consider "4 * k < i" | "4 * k = i" | "i + 4 \<le> 4 * k"
      unfolding j by fastforce
    then show ?thesis
    proof cases
      case 1
      with j have "4 * k + 4 \<le> i" by simp
      with "1.prems"(4) have "4 * k + c < i" by simp
      with 1 ih show ?thesis by (simp add: step)
    next
      case 2
      have "c = 0 \<or> c = 1 \<or> c = 2 \<or> c = 3" using "1.prems"(4) by arith
      with 2 ih i3 "1.prems"(3) show ?thesis
        by (auto simp: step byte_at_def)
    next
      case 3
      with ih show ?thesis by (simp add: step)
    qed
  qed
qed

lemma convert_data_nth:
  assumes "valid_imageData img" and "c < 4" and "k < width img * height img"
  shows "grayscale_copy (data img) (replicate (4 * width img * height img) 0) 0 ! (4 * k + c) =
           (if c = 3 then data img ! (4 * k + 3) else gray_at (data img) (4 * k))"
proof -
  from assms(1) have len: "length (data img) = 4 * (width img * height img)"
    by (simp add: valid_imageData_def)
  with assms(2,3) have "4 * k + c < length (data img)" by simp
  moreover from len have "4 dvd length (data img)" by simp
  moreover from len have "length (replicate (4 * width img * height img) (0::u8)) = length (data img)"
    by simp
  ultimately show ?thesis
    using assms(2) by (simp add: grayscale_copy_nth)
qed

lemma gray_at_pixel:
  "4 * k + 3 < length d \<Longrightarrow>
   gray_at d (4 * k) = toUint8Clamped (luminance (d ! (4 * k)) (d ! (4 * k + 1)) (d ! (4 * k + 2)))"
  by (simp add: gray_at_def)

lemma convert_grayscale_raster:
  assumes "valid_imageData img" and "is_grayscale img"
  shows "convertImageDataToGrayscale img = Inr img"
proof -
  let ?n = "width img * height img"
  let ?out = "grayscale_copy (data img) (replicate (4 * width img * height img) 0) 0"
  from assms(1) have len: "length (data img) = 4 * ?n" and pos: "0 < width img" "0 < height img"
    by (simp_all add: valid_imageData_def)
  have "?out = data img"
  proof (rule nth_equalityI)
    show "length ?out = length (data img)"
      by (simp add: grayscale_copy_length len)
  next
    fix p assume "p < length ?out"
    then have p: "p < 4 * ?n" by (simp add: grayscale_copy_length)
    define k c where "k = p div 4" and "c = p mod 4"
    have pk: "p = 4 * k + c" and c: "c < 4" by (simp_all add: k_def c_def)
    from p pk have k: "k < ?n" by simp
    from k len have k3: "4 * k + 3 < length (data img)" by simp
    from assms(2) k have g: "data img ! (4 * k + 1) = data img ! (4 * k)"
      "data img ! (4 * k + 2) = data img ! (4 * k)"
      by (simp_all add: is_grayscale_def)
    have "gray_at (data img) (4 * k) = data img ! (4 * k)"
      by (simp only: gray_at_pixel [OF k3] g toUint8Clamped_gray)
    moreover have "c = 0 \<or> c = 1 \<or> c = 2 \<or> c = 3" using c by arith
    ultimately have "?out ! (4 * k + c) = data img ! (4 * k + c)"
      using convert_data_nth [OF assms(1) c k] g by auto
    then show "?out ! p = data img ! p" by (simp only: pk)
  qed
  with pos show ?thesis
    by (simp add: convertImageDataToGrayscale_def)
qed

text \<open>
  C6, as the code has it. Converting a raster (positive dimensions, four bytes per
  pixel) cannot fail and gives a raster of the same width and height. In every pixel,
  red is \<^verbatim>\<open>Math.round\<close> of the sum \<^verbatim>\<open>R * 0.299 + G * 0.587 + B * 0.114\<close> taken in
  double precision; green and blue equal red; alpha is the source's alpha. The value is
  within \<open>1 / 2 + 1 / 10 ^ 12\<close> of the exact weighted sum
  \<open>(299 R + 587 G + 114 B) / 1000\<close>, and it is that sum rounded, \<open>\<lfloor>sum + 1 / 2\<rfloor>\<close>, unless
  the fractional part of the sum is exactly one half.
\<close>

theorem convertImageDataToGrayscale_pixels:
  assumes "valid_imageData img"
  shows "\<exists>g. convertImageDataToGrayscale img = Inr g
           \<and> width g = width img \<and> height g = height img \<and> valid_imageData g
           \<and> (\<forall>k < width img * height img.
                 uint (data g ! (4 * k)) =
                   luminance (data img ! (4 * k)) (data img ! (4 * k + 1)) (data img ! (4 * k + 2))
               \<and> data g ! (4 * k + 1) = data g ! (4 * k)
               \<and> data g ! (4 * k + 2) = data g ! (4 * k)
               \<and> data g ! (4 * k + 3) = data img ! (4 * k + 3)
               \<and> \<bar>of_int (uint (data g ! (4 * k)))
                    - exact_luminance (data img ! (4 * k)) (data img ! (4 * k + 1))
                        (data img ! (4 * k + 2))\<bar> \<le> 1 / 2 + 1 / 10 ^ 12
               \<and> (frac (exact_luminance (data img ! (4 * k)) (data img ! (4 * k + 1))
                         (data img ! (4 * k + 2))) \<noteq> 1 / 2 \<longrightarrow>
                    uint (data g ! (4 * k)) =
                      Math_round (exact_luminance (data img ! (4 * k)) (data img ! (4 * k + 1))
                                    (data img ! (4 * k + 2)))))"
proof -
  let ?n = "width img * height img"
  let ?out = "grayscale_copy (data img) (replicate (4 * width img * height img) 0) 0"
  let ?g = "\<lparr>width = width img, height = height img, data = ?out\<rparr>"
  from assms have len: "length (data img) = 4 * ?n" and pos: "0 < width img" "0 < height img"
    by (simp_all add: valid_imageData_def)
  from pos have r: "convertImageDataToGrayscale img = Inr ?g"
    by (simp add: convertImageDataToGrayscale_def)
  have v: "valid_imageData ?g"
    using pos by (simp add: valid_imageData_def grayscale_copy_length)
  have px: "uint (?out ! (4 * k)) =
                   luminance (data img ! (4 * k)) (data img ! (4 * k + 1)) (data img ! (4 * k + 2))
               \<and> ?out ! (4 * k + 1) = ?out ! (4 * k)
               \<and> ?out ! (4 * k + 2) = ?out ! (4 * k)
               \<and> ?out ! (4 * k + 3) = data img ! (4 * k + 3)" if "k < ?n" for k
  proof -
    from that len have k3: "4 * k + 3 < length (data img)" by simp
    from convert_data_nth [OF assms _ that, of 0] convert_data_nth [OF assms _ that, of 1]
      convert_data_nth [OF assms _ that, of 2] convert_data_nth [OF assms _ that, of 3]
    show ?thesis
      by (simp add: gray_at_pixel [OF k3] uint_gray)
  qed
  have near: "\<bar>of_int (uint (?out ! (4 * k)))
            - exact_luminance (data img ! (4 * k)) (data img ! (4 * k + 1))
                (data img ! (4 * k + 2))\<bar> \<le> 1 / 2 + 1 / 10 ^ 12" if "k < ?n" for k
  proof -
    from px [OF that] have "uint (?out ! (4 * k)) =
        luminance (data img ! (4 * k)) (data img ! (4 * k + 1)) (data img ! (4 * k + 2))" ..
    then show ?thesis by (simp only: luminance_nearest)
  qed
  have exact: "frac (exact_luminance (data img ! (4 * k)) (data img ! (4 * k + 1))
                  (data img ! (4 * k + 2))) \<noteq> 1 / 2 \<longrightarrow>
               uint (?out ! (4 * k)) =
                 Math_round (exact_luminance (data img ! (4 * k)) (data img ! (4 * k + 1))
                               (data img ! (4 * k + 2)))" if "k < ?n" for k
  proof
    assume f: "frac (exact_luminance (data img ! (4 * k)) (data img ! (4 * k + 1))
                  (data img ! (4 * k + 2))) \<noteq> 1 / 2"
    from px [OF that] have "uint (?out ! (4 * k)) =
        luminance (data img ! (4 * k)) (data img ! (4 * k + 1)) (data img ! (4 * k + 2))" ..
    then show "uint (?out ! (4 * k)) =
                 Math_round (exact_luminance (data img ! (4 * k)) (data img ! (4 * k + 1))
                               (data img ! (4 * k + 2)))"
      by (simp only: luminance_exact_round [OF f])
  qed
  show ?thesis
  proof (intro exI [of _ ?g] conjI)
    show "convertImageDataToGrayscale img = Inr ?g" by (rule r)
    show "width ?g = width img" by simp
    show "height ?g = height img" by simp
    show "valid_imageData ?g" by (rule v)
    show "\<forall>k < width img * height img.
            uint (data ?g ! (4 * k)) =
              luminance (data img ! (4 * k)) (data img ! (4 * k + 1)) (data img ! (4 * k + 2))
          \<and> data ?g ! (4 * k + 1) = data ?g ! (4 * k)
          \<and> data ?g ! (4 * k + 2) = data ?g ! (4 * k)
          \<and> data ?g ! (4 * k + 3) = data img ! (4 * k + 3)
          \<and> \<bar>of_int (uint (data ?g ! (4 * k)))
               - exact_luminance (data img ! (4 * k)) (data img ! (4 * k + 1))
                   (data img ! (4 * k + 2))\<bar> \<le> 1 / 2 + 1 / 10 ^ 12
          \<and> (frac (exact_luminance (data img ! (4 * k)) (data img ! (4 * k + 1))
                    (data img ! (4 * k + 2))) \<noteq> 1 / 2 \<longrightarrow>
               uint (data ?g ! (4 * k)) =
                 Math_round (exact_luminance (data img ! (4 * k)) (data img ! (4 * k + 1))
                               (data img ! (4 * k + 2))))"
    proof (intro allI impI)
      fix k assume "k < ?n"
      from px [OF this] near [OF this] exact [OF this]
      show "uint (data ?g ! (4 * k)) =
              luminance (data img ! (4 * k)) (data img ! (4 * k + 1)) (data img ! (4 * k + 2))
          \<and> data ?g ! (4 * k + 1) = data ?g ! (4 * k)
          \<and> data ?g ! (4 * k + 2) = data ?g ! (4 * k)
          \<and> data ?g ! (4 * k + 3) = data img ! (4 * k + 3)
          \<and> \<bar>of_int (uint (data ?g ! (4 * k)))
               - exact_luminance (data img ! (4 * k)) (data img ! (4 * k + 1))
                   (data img ! (4 * k + 2))\<bar> \<le> 1 / 2 + 1 / 10 ^ 12
          \<and> (frac (exact_luminance (data img ! (4 * k)) (data img ! (4 * k + 1))
                    (data img ! (4 * k + 2))) \<noteq> 1 / 2 \<longrightarrow>
               uint (data ?g ! (4 * k)) =
                 Math_round (exact_luminance (data img ! (4 * k)) (data img ! (4 * k + 1))
                               (data img ! (4 * k + 2))))"
        by (simp only: imageData.select_convs simp_thms)
    qed
  qed
qed

theorem convertImageDataToGrayscale_pixels_witness:
  "valid_imageData \<lparr>width = 1, height = 1, data = [255, 0, 0, 200]\<rparr>
   \<and> (\<exists>g. convertImageDataToGrayscale \<lparr>width = 1, height = 1, data = [255, 0, 0, 200]\<rparr> = Inr g
          \<and> width g = 1 \<and> height g = 1 \<and> valid_imageData g
          \<and> data g = [76, 76, 76, 200])
   \<and> luminance 255 0 0 = 76
   \<and> exact_luminance 255 0 0 = 15249 / 200
   \<and> frac (exact_luminance 255 0 0) \<noteq> 1 / 2
   \<and> Math_round (exact_luminance 255 0 0) = 76"
proof -
  let ?img = "\<lparr>width = 1, height = 1, data = [255, 0, 0, 200]\<rparr>"
  have v: "valid_imageData ?img" by (simp add: valid_imageData_def)
  have x: "exact_luminance 255 0 0 = 15249 / 200"
    by (simp add: exact_luminance_def)
  have "\<lfloor>15249 / 200 :: rat\<rfloor> = 76" "\<lfloor>15249 / 200 + 1 / 2 :: rat\<rfloor> = 76"
    by (rule floor_unique; simp)+
  then have f: "frac (exact_luminance 255 0 0) \<noteq> 1 / 2"
    and m: "Math_round (exact_luminance 255 0 0) = 76"
    unfolding x frac_def Math_round_def by simp_all
  from convertImageDataToGrayscale_pixels [OF v] obtain g where
    g: "convertImageDataToGrayscale ?img = Inr g" and wh: "width g = 1" "height g = 1"
    and vg: "valid_imageData g"
    and px: "\<forall>k < width ?img * height ?img.
                 uint (data g ! (4 * k)) =
                   luminance (data ?img ! (4 * k)) (data ?img ! (4 * k + 1)) (data ?img ! (4 * k + 2))
               \<and> data g ! (4 * k + 1) = data g ! (4 * k)
               \<and> data g ! (4 * k + 2) = data g ! (4 * k)
               \<and> data g ! (4 * k + 3) = data ?img ! (4 * k + 3)
               \<and> \<bar>of_int (uint (data g ! (4 * k)))
                    - exact_luminance (data ?img ! (4 * k)) (data ?img ! (4 * k + 1))
                        (data ?img ! (4 * k + 2))\<bar> \<le> 1 / 2 + 1 / 10 ^ 12
               \<and> (frac (exact_luminance (data ?img ! (4 * k)) (data ?img ! (4 * k + 1))
                         (data ?img ! (4 * k + 2))) \<noteq> 1 / 2 \<longrightarrow>
                    uint (data g ! (4 * k)) =
                      Math_round (exact_luminance (data ?img ! (4 * k)) (data ?img ! (4 * k + 1))
                                    (data ?img ! (4 * k + 2))))"
    by auto
  from px [rule_format, of 0]
  have l: "uint (data g ! 0) = luminance 255 0 0" and c: "data g ! 1 = data g ! 0"
    "data g ! 2 = data g ! 0" "data g ! 3 = 200"
    and e: "frac (exact_luminance 255 0 0) \<noteq> 1 / 2 \<longrightarrow>
            uint (data g ! 0) = Math_round (exact_luminance 255 0 0)"
    by (auto simp: numeral_2_eq_2)
  from e f m have u: "uint (data g ! 0) = 76" by simp
  then have "uint (data g ! 0) = uint (76 :: u8)" by simp
  then have r: "data g ! 0 = 76"
    by (simp only: word_uint_eq_iff)
  from l u have lum: "luminance 255 0 0 = 76" by simp
  from vg wh have "length (data g) = 4" by (simp add: valid_imageData_def)
  then obtain a b c' d where abcd: "data g = [a, b, c', d]"
    by (auto simp: length_Suc_conv numeral_eq_Suc)
  with r c have "data g = [76, 76, 76, 200]" by simp
  with g wh vg have "\<exists>g. convertImageDataToGrayscale ?img = Inr g
          \<and> width g = 1 \<and> height g = 1 \<and> valid_imageData g
          \<and> data g = [76, 76, 76, 200]"
    by blast
  with v lum x f m show ?thesis by (intro conjI)
qed

text \<open>
  The claim that the gray value equals the rounded exact weighted sum fails on the pixel
  with red 0, green 204, blue 68: the exact sum is 127.5, which rounds to 128, and the
  converted pixel has 127.
\<close>

theorem convertImageDataToGrayscale_pixels_counterexample:
  "convertImageDataToGrayscale \<lparr>width = 1, height = 1, data = [0, 204, 68, 255]\<rparr>
     = Inr \<lparr>width = 1, height = 1, data = [127, 127, 127, 255]\<rparr>
   \<and> exact_luminance 0 204 68 = 255 / 2
   \<and> Math_round (exact_luminance 0 204 68) = 128
   \<and> round_even (exact_luminance 0 204 68) = 128
   \<and> uint (127 :: u8) \<noteq> Math_round (exact_luminance 0 204 68)"
proof -
  have "toUint8Clamped (luminance 0 204 68) = 127"
    by (simp add: luminance_examples toUint8Clamped_def)
  then have "convertImageDataToGrayscale \<lparr>width = 1, height = 1, data = [0, 204, 68, 255]\<rparr>
     = Inr \<lparr>width = 1, height = 1, data = [127, 127, 127, 255]\<rparr>"
    by (simp only: convert_one_pixel)
  then show ?thesis
    by (simp add: exact_luminance_example)
qed


text \<open>
  C7. Converting twice gives what converting once gives, and converting a raster whose
  red, green and blue already agree in every pixel returns that raster, alpha included.
\<close>

theorem convertImageDataToGrayscale_idempotent:
  assumes "valid_imageData img"
  shows "(\<exists>g. convertImageDataToGrayscale img = Inr g \<and> convertImageDataToGrayscale g = Inr g)
       \<and> (is_grayscale img \<longrightarrow> convertImageDataToGrayscale img = Inr img)"
proof -
  let ?out = "grayscale_copy (data img) (replicate (4 * width img * height img) 0) 0"
  let ?g = "\<lparr>width = width img, height = height img, data = ?out\<rparr>"
  from assms have pos: "0 < width img" "0 < height img"
    by (simp_all add: valid_imageData_def)
  from pos have r: "convertImageDataToGrayscale img = Inr ?g"
    by (simp add: convertImageDataToGrayscale_def)
  have v: "valid_imageData ?g"
    using pos by (simp add: valid_imageData_def grayscale_copy_length)
  have "is_grayscale ?g"
    unfolding is_grayscale_def
  proof (intro ballI)
    fix k assume "k \<in> {..<width ?g * height ?g}"
    then have k: "k < width img * height img" by simp
    from convert_data_nth [OF assms _ k, of 0] convert_data_nth [OF assms _ k, of 1]
      convert_data_nth [OF assms _ k, of 2]
    show "data ?g ! (4 * k + 1) = data ?g ! (4 * k) \<and> data ?g ! (4 * k + 2) = data ?g ! (4 * k)"
      by simp
  qed
  with v have "convertImageDataToGrayscale ?g = Inr ?g"
    by (rule convert_grayscale_raster)
  with r convert_grayscale_raster [OF assms] show ?thesis by simp
qed

theorem convertImageDataToGrayscale_idempotent_witness:
  "valid_imageData \<lparr>width = 1, height = 1, data = [255, 0, 0, 200]\<rparr>
   \<and> valid_imageData \<lparr>width = 1, height = 1, data = [76, 76, 76, 200]\<rparr>
   \<and> is_grayscale \<lparr>width = 1, height = 1, data = [76, 76, 76, 200]\<rparr>
   \<and> (\<exists>g. convertImageDataToGrayscale \<lparr>width = 1, height = 1, data = [255, 0, 0, 200]\<rparr> = Inr g
          \<and> convertImageDataToGrayscale g = Inr g)
   \<and> convertImageDataToGrayscale \<lparr>width = 1, height = 1, data = [76, 76, 76, 200]\<rparr>
       = Inr \<lparr>width = 1, height = 1, data = [76, 76, 76, 200]\<rparr>"
proof -
  let ?img = "\<lparr>width = 1, height = 1, data = [255, 0, 0, 200]\<rparr>"
  let ?g = "\<lparr>width = 1, height = 1, data = [76, 76, 76, 200]\<rparr>"
  have v: "valid_imageData ?img" "valid_imageData ?g" by (simp_all add: valid_imageData_def)
  have gg: "is_grayscale ?g"
    by (simp add: is_grayscale_def)
  from convertImageDataToGrayscale_idempotent [OF v(1)]
  have a: "\<exists>g. convertImageDataToGrayscale ?img = Inr g \<and> convertImageDataToGrayscale g = Inr g" ..
  from convertImageDataToGrayscale_idempotent [OF v(2)] gg
  have b: "convertImageDataToGrayscale ?g = Inr ?g" by blast
  from v gg a b show ?thesis by blast
qed

section \<open>Properties of thresholding\<close>

lemma length_threshold_loop: "length (threshold_loop ds t) = (length ds + 3) div 4"
  by (induction ds t rule: threshold_loop.induct) auto

lemma nth_threshold_loop:
  "4 * k < length ds \<Longrightarrow> threshold_loop ds t ! k = (unat (ds ! (4 * k)) < t)"
proof (induction ds t arbitrary: k rule: threshold_loop.induct)
  case (1 t)
  then show ?case by simp
next
  case (2 gray rest t)
  show ?case
  proof (cases k)
    case 0
    then show ?thesis by simp
  next
    case (Suc j)
    with "2.prems" have "4 * j < length (drop 3 rest)" by simp
    from "2.IH" [OF this] Suc "2.prems" show ?thesis
      by (simp add: add.commute)
  qed
qed

text \<open>
  C3. Let the canvas return a \<open>gridSize\<close> by \<open>gridSize\<close> raster for the scaled image,
  \<open>gridSize \<ge> 1\<close>. Then applyThreshold succeeds with one boolean per cell, cell \<open>k\<close> is
  on exactly when its resampled luminance is strictly below the threshold, and a cell
  whose luminance equals the threshold is off.
\<close>

theorem applyThreshold_strict:
  assumes "1 \<le> gridSize"
    and "length (data (draw img gridSize gridSize)) = 4 * gridSize * gridSize"
    and "k < gridSize * gridSize"
  shows "\<exists>grid. applyThreshold draw img t gridSize = Inr grid
           \<and> length grid = gridSize * gridSize
           \<and> grid ! k = (cell_luminance draw img gridSize k < t)
           \<and> (cell_luminance draw img gridSize k = t \<longrightarrow> \<not> grid ! k)"
proof -
  let ?ds = "data (draw img gridSize gridSize)"
  from assms(1) have "applyThreshold draw img t gridSize = Inr (threshold_loop ?ds t)"
    by (simp add: applyThreshold_def)
  moreover from assms(2) have "length (threshold_loop ?ds t) = gridSize * gridSize"
    by (simp add: length_threshold_loop)
  moreover from assms(2,3) have "4 * k < length ?ds" by simp
  then have "threshold_loop ?ds t ! k = (cell_luminance draw img gridSize k < t)"
    by (simp add: nth_threshold_loop cell_luminance_def)
  ultimately show ?thesis by simp
qed

theorem applyThreshold_strict_witness:
  "cell_luminance drawNearest \<lparr>width = 1, height = 1, data = [100, 100, 100, 255]\<rparr> 1 0 = 100
   \<and> applyThreshold drawNearest \<lparr>width = 1, height = 1, data = [100, 100, 100, 255]\<rparr> 100 1
       = Inr [False]
   \<and> applyThreshold drawNearest \<lparr>width = 1, height = 1, data = [100, 100, 100, 255]\<rparr> 101 1
       = Inr [True]"
proof -
  let ?img = "\<lparr>width = 1, height = 1, data = [100, 100, 100, 255]\<rparr>"
  have d: "data (drawNearest ?img 1 1) = [100, 100, 100, 255]"
    by (simp add: drawNearest_def)
  have h: "(1::nat) \<le> 1" "length (data (drawNearest ?img 1 1)) = 4 * 1 * 1" "(0::nat) < 1 * 1"
    unfolding d by simp_all
  have l: "cell_luminance drawNearest ?img 1 0 = 100"
    unfolding cell_luminance_def d by simp
  from applyThreshold_strict [of 1 drawNearest ?img 0 100, OF h]
       applyThreshold_strict [of 1 drawNearest ?img 0 101, OF h] l
  show ?thesis
    by (auto simp: length_Suc_conv)
qed

section \<open>Properties of Otsu's threshold\<close>

lemma fold_add_sum_list: "fold (\<lambda>count s. s + count) xs (a::nat) = a + sum_list xs"
  by (induction xs arbitrary: a) simp_all

lemma sum_list_nth_sum: "sum_list xs = (\<Sum>j<length xs. xs ! j)" for xs :: "nat list"
  by (simp add: sum_list_sum_nth atLeast0LessThan)

lemma fold_upt_sum: "fold (\<lambda>i s. s + f i) [0..<n] (a::nat) = a + (\<Sum>j<n. f j)"
  by (induction n) simp_all

lemma length_histogram_loop: "length (histogram_loop d h) = length h"
  by (induction d h rule: histogram_loop.induct) simp_all

lemma length_histogram_of: "length (histogram_of img) = 256"
  by (simp add: histogram_of_def length_histogram_loop)

lemma calculateOtsuThreshold_loop:
  "calculateOtsuThreshold img =
     otsu_loop (histogram_of img) (\<Sum>j<256. histogram_of img ! j)
       (\<Sum>j<256. j * histogram_of img ! j) 0 0 0 0 128"
proof -
  have "sum_list (histogram_of img) = (\<Sum>j<256. histogram_of img ! j)"
    by (simp only: sum_list_nth_sum length_histogram_of)
  then show ?thesis
    by (simp add: calculateOtsuThreshold_def histogram_of_def [symmetric] Let_def
        fold_add_sum_list fold_upt_sum DEFAULT_THRESHOLD_def)
qed

lemma weightBackground_Suc:
  "weightBackground h i = (\<Sum>j<i. h ! j) + h ! i"
  by (simp add: weightBackground_def lessThan_Suc_atMost [symmetric])

lemma sumBackground_Suc:
  "sumBackground h i = (\<Sum>j<i. j * h ! j) + i * h ! i"
  by (simp add: sumBackground_def lessThan_Suc_atMost [symmetric])

lemma weightBackground_mono: "c \<le> c' \<Longrightarrow> weightBackground h c \<le> weightBackground h c'"
  unfolding weightBackground_def by (intro sum_mono2) auto

lemma first_max_alt:
  "first_max V n r m \<longleftrightarrow>
     (m = 0 \<and> r = 128 \<and> (\<forall>c<n. V c \<le> 0))
     \<or> (r < n \<and> V r = m \<and> 0 < m \<and> (\<forall>c<n. V c \<le> m) \<and> (\<forall>c<r. V c < m))"
  by (simp add: first_max_def Ball_def)

lemma degenerate_alt:
  "degenerate h \<longleftrightarrow> (\<exists>b<256. \<forall>c<256. c \<noteq> b \<longrightarrow> h ! c = 0)"
  by (simp add: degenerate_def Ball_def Bex_def)

lemma first_max_step:
  assumes "first_max V i r m"
  shows "m < V i \<Longrightarrow> first_max V (Suc i) i (V i)"
    and "V i \<le> m \<Longrightarrow> first_max V (Suc i) r m"
  using assms by (auto simp: first_max_alt less_Suc_eq)

lemma first_max_rest:
  assumes "first_max V i r m" and "i \<le> n" and "\<forall>c<n. i \<le> c \<longrightarrow> V c \<le> 0"
  shows "first_max V n r m"
proof -
  from assms(1) consider
      (none) "m = 0" "r = 128" "\<forall>c<i. V c \<le> 0"
    | (some) "r < i" "V r = m" "0 < m" "\<forall>c<i. V c \<le> m" "\<forall>c<r. V c < m"
    unfolding first_max_alt by blast
  then show ?thesis
  proof cases
    case none
    have "V c \<le> 0" if "c < n" for c
      using none(3) assms(3) that by (cases "c < i") auto
    with none show ?thesis by (simp add: first_max_alt)
  next
    case some
    have "V c \<le> m" if "c < n" for c
    proof (cases "c < i")
      case True
      with some(4) show ?thesis by simp
    next
      case False
      with assms(3) that have "V c \<le> 0" by simp
      with some(3) show ?thesis by simp
    qed
    moreover from some(1) assms(2) have "r < n" by simp
    ultimately show ?thesis using some by (simp add: first_max_alt)
  qed
qed

lemma betweenClassVariance_empty:
  "weightBackground h c = 0 \<or> weightForeground h c = 0 \<Longrightarrow> betweenClassVariance h c = 0"
  by (simp add: betweenClassVariance_def)

lemma otsu_loop_first_max:
  assumes "i \<le> 256"
    and "wB = (\<Sum>j<i. h ! j)" and "sumB = (\<Sum>j<i. j * h ! j)"
    and "first_max (betweenClassVariance h) i threshold maxVariance"
  shows "\<exists>m. first_max (betweenClassVariance h) 256
               (otsu_loop h (\<Sum>j<256. h ! j) (\<Sum>j<256. j * h ! j) i sumB wB maxVariance threshold) m"
  using assms
proof (induction h "\<Sum>j<256. h ! j" "\<Sum>j<256. j * h ! j" i sumB wB maxVariance threshold
       rule: otsu_loop.induct)
  case (1 h i sumB wB maxVariance threshold)
  let ?V = "betweenClassVariance h"
  let ?T = "\<Sum>j<256. h ! j" and ?S = "\<Sum>j<256. j * h ! j"
  let ?r = "otsu_loop h ?T ?S i sumB wB maxVariance threshold"
  have wb: "weightBackground h i = wB + h ! i"
    by (simp add: weightBackground_Suc "1.prems"(2))
  have sb: "sumBackground h i = sumB + i * h ! i"
    by (simp add: sumBackground_Suc "1.prems"(3))
  have wb': "wB + h ! i = (\<Sum>j<i + 1. h ! j)"
    by (simp add: "1.prems"(2))
  have sb': "sumB + i * h ! i = (\<Sum>j<i + 1. j * h ! j)"
    by (simp add: "1.prems"(3))
  show ?case
  proof (cases "256 \<le> i")
    case True
    with "1.prems"(1) have "i = 256" by simp
    moreover from True have "?r = threshold"
      by (subst otsu_loop.simps) simp
    ultimately show ?thesis using "1.prems"(4) by auto
  next
    case lt: False
    then have i1: "i + 1 \<le> 256" by simp
    show ?thesis
    proof (cases "wB + h ! i = 0")
      case True
      then have hi: "h ! i = 0" by simp
      from True wb have "?V i = 0" by (simp add: betweenClassVariance_empty)
      then have "?V i \<le> maxVariance"
        using "1.prems"(4) by (auto simp: first_max_alt)
      from first_max_step(2) [OF "1.prems"(4) this]
      have fm: "first_max ?V (i + 1) threshold maxVariance" by simp
      have "sumB = (\<Sum>j<i + 1. j * h ! j)" using sb' hi by simp
      from "1.hyps"(1) [OF lt True i1 wb' this fm]
      have "\<exists>m. first_max ?V 256
              (otsu_loop h ?T ?S (i + 1) sumB (wB + h ! i) maxVariance threshold) m" .
      moreover have "?r = otsu_loop h ?T ?S (i + 1) sumB (wB + h ! i) maxVariance threshold"
        by (subst otsu_loop.simps) (simp only: lt True if_False if_True simp_thms)
      ultimately show ?thesis by simp
    next
      case nz: False
      show ?thesis
      proof (cases "?T - (wB + h ! i) = 0")
        case True
        have "?V c \<le> 0" if "c < 256" "i \<le> c" for c
        proof -
          from that(2) have "weightBackground h i \<le> weightBackground h c"
            by (rule weightBackground_mono)
          with True wb have "weightForeground h c = 0"
            by (simp add: weightForeground_def)
          then show ?thesis by (simp add: betweenClassVariance_empty)
        qed
        then have "\<forall>c<256. i \<le> c \<longrightarrow> ?V c \<le> 0" by blast
        from first_max_rest [OF "1.prems"(4,1) this]
        have "first_max ?V 256 threshold maxVariance" .
        moreover have "?r = threshold"
          by (subst otsu_loop.simps) (simp only: lt nz True if_False if_True simp_thms)
        ultimately show ?thesis by auto
      next
        case wf: False
        define variance where "variance = ?V i"
        have wfg: "weightForeground h i = ?T - (wB + h ! i)"
          by (simp add: weightForeground_def wb)
        have sfg: "sumForeground h i = ?S - (sumB + i * h ! i)"
          by (simp add: sumForeground_def sb)
        have var: "js_mul (js_mul (js_mul (of_nat (wB + h ! i)) (of_nat (?T - (wB + h ! i))))
                     (js_sub (js_div (of_nat (sumB + i * h ! i)) (of_nat (wB + h ! i)))
                             (js_div (of_nat (?S - (sumB + i * h ! i)))
                                     (of_nat (?T - (wB + h ! i))))))
                     (js_sub (js_div (of_nat (sumB + i * h ! i)) (of_nat (wB + h ! i)))
                             (js_div (of_nat (?S - (sumB + i * h ! i)))
                                     (of_nat (?T - (wB + h ! i))))) = variance"
          unfolding variance_def betweenClassVariance_def wfg sfg wb sb Let_def
          by (simp only: nz wf if_False simp_thms)
        show ?thesis
        proof (cases "maxVariance < variance")
          case True
          from first_max_step(1) [OF "1.prems"(4)] True
          have fm: "first_max ?V (i + 1) i variance" by (simp add: variance_def)
          from "1.hyps"(2) [OF lt nz wf refl refl refl refl refl refl _ i1 wb' sb'] True var fm
          have "\<exists>m. first_max ?V 256
              (otsu_loop h ?T ?S (i + 1) (sumB + i * h ! i) (wB + h ! i) variance i) m"
            by simp
          moreover have "?r = otsu_loop h ?T ?S (i + 1) (sumB + i * h ! i) (wB + h ! i) variance i"
            by (subst otsu_loop.simps) (simp only: lt nz wf True if_False if_True Let_def var simp_thms)
          ultimately show ?thesis by simp
        next
          case False
          then have "?V i \<le> maxVariance" by (simp add: variance_def)
          from first_max_step(2) [OF "1.prems"(4) this]
          have fm: "first_max ?V (i + 1) threshold maxVariance" by simp
          from "1.hyps"(3) [OF lt nz wf refl refl refl refl refl refl _ i1 wb' sb'] False var fm
          have "\<exists>m. first_max ?V 256
              (otsu_loop h ?T ?S (i + 1) (sumB + i * h ! i) (wB + h ! i) maxVariance threshold) m"
            by simp
          moreover have "?r = otsu_loop h ?T ?S (i + 1) (sumB + i * h ! i) (wB + h ! i)
                                maxVariance threshold"
            by (subst otsu_loop.simps) (simp only: lt nz wf False if_False if_True Let_def var simp_thms)
          ultimately show ?thesis by simp
        qed
      qed
    qed
  qed
qed

lemma sum_split_at:
  "c < n \<Longrightarrow> (\<Sum>j<n. f j) = (\<Sum>j\<le>c. f j) + (\<Sum>j\<in>{c<..<n}. f j)" for f :: "nat \<Rightarrow> nat"
proof -
  assume "c < n"
  then have "{..<n} = {..c} \<union> {c<..<n}" by auto
  moreover have "{..c} \<inter> {c<..<n} = {}" by auto
  ultimately show ?thesis by (simp add: sum.union_disjoint)
qed

lemma weightForeground_sum: "c < 256 \<Longrightarrow> weightForeground h c = (\<Sum>j\<in>{c<..<256}. h ! j)"
  by (simp add: weightForeground_def weightBackground_def sum_split_at [of c 256])

lemma sumForeground_sum: "c < 256 \<Longrightarrow> sumForeground h c = (\<Sum>j\<in>{c<..<256}. j * h ! j)"
  by (simp add: sumForeground_def sumBackground_def sum_split_at [of c 256])

lemma sumBackground_le: "sumBackground h c \<le> c * weightBackground h c"
  unfolding sumBackground_def weightBackground_def sum_distrib_left
  by (intro sum_mono mult_right_mono) simp_all

lemma sumForeground_ge:
  assumes "c < 256"
  shows "(c + 1) * weightForeground h c \<le> sumForeground h c"
  unfolding sumForeground_sum [OF assms] weightForeground_sum [OF assms] sum_distrib_left
  by (intro sum_mono mult_right_mono) simp_all

lemma betweenClassVariance_pos:
  assumes "c < 256" and "0 < weightBackground h c" and "0 < weightForeground h c"
  shows "0 < betweenClassVariance h c"
proof -
  define wB wF sB sF :: rat where "wB = of_nat (weightBackground h c)"
    and "wF = of_nat (weightForeground h c)" and "sB = of_nat (sumBackground h c)"
    and "sF = of_nat (sumForeground h c)"
  define C :: rat where "C = of_nat c"
  from assms(2,3) have pos: "0 < wB" "0 < wF" by (simp_all add: wB_def wF_def)
  have C: "0 \<le> C" "C \<le> 255"
    using assms(1) by (simp_all add: C_def)
  have "sB \<le> C * wB"
    unfolding sB_def C_def wB_def of_nat_mult [symmetric] of_nat_le_iff
    by (rule sumBackground_le)
  with pos have x: "sB / wB \<le> C" by (simp add: pos_divide_le_eq)
  have x0: "0 \<le> sB / wB" using pos by (simp add: sB_def)
  have "(C + 1) * wF \<le> sF"
    using sumForeground_ge [OF assms(1), of h]
    unfolding sF_def C_def wF_def by (metis of_nat_1 of_nat_add of_nat_mult of_nat_le_iff)
  with pos have y: "C + 1 \<le> sF / wF" by (simp add: pos_le_divide_eq)
  then have y0: "0 \<le> sF / wF" using C by simp
  define mB mF where "mB = js_div sB wB" and "mF = js_div sF wF"
  have "mB \<le> sB / wB * (1 + 1 / 2 ^ 53)"
    unfolding mB_def js_div_def by (rule fl53_bounds(2) [OF x0])
  also have "\<dots> \<le> C * (1 + 1 / 2 ^ 53)"
    using x by (intro mult_right_mono) simp_all
  finally have mB: "mB \<le> C * (1 + 1 / 2 ^ 53)" .
  have "(C + 1) * (1 - 1 / 2 ^ 53) \<le> sF / wF * (1 - 1 / 2 ^ 53)"
    using y by (intro mult_right_mono) simp_all
  also have "\<dots> \<le> mF"
    unfolding mF_def js_div_def by (rule fl53_bounds(1) [OF y0])
  finally have mF: "(C + 1) * (1 - 1 / 2 ^ 53) \<le> mF" .
  have "C * (1 + 1 / 2 ^ 53) - (C + 1) * (1 - 1 / 2 ^ 53) = (2 * C + 1) / 2 ^ 53 - 1"
    by (simp add: algebra_simps)
  also have "\<dots> < 0"
    using C by simp
  finally have "mB - mF < 0" using mB mF by linarith
  then have d: "js_sub mB mF < 0"
    unfolding js_sub_def by (rule fl53_neg)
  from pos have p: "0 < js_mul wB wF"
    unfolding js_mul_def by (intro fl53_pos) simp
  from p d have "js_mul (js_mul wB wF) (js_sub mB mF) < 0"
    unfolding js_mul_def [of "js_mul wB wF"] by (intro fl53_neg) (rule mult_pos_neg)
  with d have "0 < js_mul (js_mul (js_mul wB wF) (js_sub mB mF)) (js_sub mB mF)"
    unfolding js_mul_def [of "js_mul (js_mul wB wF) (js_sub mB mF)"]
    by (intro fl53_pos) (rule mult_neg_neg)
  moreover have "betweenClassVariance h c =
      js_mul (js_mul (js_mul wB wF) (js_sub mB mF)) (js_sub mB mF)"
    using assms(2,3)
    unfolding betweenClassVariance_def Let_def wB_def wF_def sB_def sF_def mB_def mF_def
    by simp
  ultimately show ?thesis by simp
qed

lemma degenerate_no_split:
  assumes "degenerate h" and "c < 256"
  shows "betweenClassVariance h c = 0"
proof -
  from assms(1) obtain b where b: "b < 256" "\<forall>j<256. j \<noteq> b \<longrightarrow> h ! j = 0"
    unfolding degenerate_alt by blast
  show ?thesis
  proof (cases "c < b")
    case True
    with b have "\<forall>j\<in>{..c}. h ! j = 0" by auto
    then have "weightBackground h c = 0"
      by (simp add: weightBackground_def)
    then show ?thesis by (simp add: betweenClassVariance_empty)
  next
    case False
    with b have "\<forall>j\<in>{c<..<256}. h ! j = 0" by auto
    then have "weightForeground h c = 0"
      by (simp add: weightForeground_sum [OF assms(2)])
    then show ?thesis by (simp add: betweenClassVariance_empty)
  qed
qed

lemma nondegenerate_split:
  assumes "\<not> degenerate h"
  shows "\<exists>c<256. 0 < betweenClassVariance h c"
proof -
  from assms have nd: "\<And>b. b < 256 \<Longrightarrow> \<exists>c<256. c \<noteq> b \<and> h ! c \<noteq> 0"
    unfolding degenerate_alt by blast
  from nd [of 0] obtain b1 where b1: "b1 < 256" "h ! b1 \<noteq> 0" by auto
  from nd [OF b1(1)] obtain b2 where b2: "b2 < 256" "b2 \<noteq> b1" "h ! b2 \<noteq> 0" by auto
  define lo hi where "lo = min b1 b2" and "hi = max b1 b2"
  from b1 b2 have lh: "lo < hi" "hi < 256" "h ! lo \<noteq> 0" "h ! hi \<noteq> 0"
    by (auto simp: lo_def hi_def min_def max_def)
  then have lo: "lo < 256" by simp
  have "h ! lo \<le> weightBackground h lo"
    unfolding weightBackground_def by (rule member_le_sum) simp_all
  with lh have wb: "0 < weightBackground h lo" by simp
  have "h ! hi \<le> (\<Sum>j\<in>{lo<..<256}. h ! j)"
    using lh by (intro member_le_sum) simp_all
  with lh have wf: "0 < weightForeground h lo"
    by (simp add: weightForeground_sum [OF lo])
  from betweenClassVariance_pos [OF lo wb wf] lo show ?thesis by blast
qed

lemma calculateOtsuThreshold_first_max:
  "\<exists>m. first_max (betweenClassVariance (histogram_of img)) 256 (calculateOtsuThreshold img) m"
proof -
  have "first_max (betweenClassVariance (histogram_of img)) 0 128 0"
    by (simp add: first_max_alt)
  from otsu_loop_first_max [OF _ _ _ this, of 0 0] show ?thesis
    by (simp add: calculateOtsuThreshold_loop)
qed

lemma calculateOtsuThreshold_degenerate:
  assumes "degenerate (histogram_of img)"
  shows "calculateOtsuThreshold img = 128"
proof -
  from calculateOtsuThreshold_first_max [of img] obtain m
    where m: "first_max (betweenClassVariance (histogram_of img)) 256 (calculateOtsuThreshold img) m" ..
  have "\<not> (calculateOtsuThreshold img < 256
           \<and> betweenClassVariance (histogram_of img) (calculateOtsuThreshold img) = m \<and> 0 < m)"
    using degenerate_no_split [OF assms] by auto
  with m show ?thesis by (auto simp: first_max_alt)
qed

lemma calculateOtsuThreshold_argmax:
  assumes "\<not> degenerate (histogram_of img)"
  shows "calculateOtsuThreshold img < 256"
    and "\<forall>c<256. betweenClassVariance (histogram_of img) c
                  \<le> betweenClassVariance (histogram_of img) (calculateOtsuThreshold img)"
    and "\<forall>c<calculateOtsuThreshold img. betweenClassVariance (histogram_of img) c
                  < betweenClassVariance (histogram_of img) (calculateOtsuThreshold img)"
    and "0 < betweenClassVariance (histogram_of img) (calculateOtsuThreshold img)"
proof -
  let ?V = "betweenClassVariance (histogram_of img)" and ?r = "calculateOtsuThreshold img"
  from calculateOtsuThreshold_first_max [of img] obtain m
    where m: "first_max ?V 256 ?r m" ..
  from nondegenerate_split [OF assms] have "\<not> (\<forall>c<256. ?V c \<le> 0)"
    by (meson not_le)
  with m have *: "?r < 256" "?V ?r = m" "0 < m" "\<forall>c<256. ?V c \<le> m" "\<forall>c<?r. ?V c < m"
    unfolding first_max_alt by blast+
  then show "?r < 256" "\<forall>c<256. ?V c \<le> ?V ?r" "\<forall>c<?r. ?V c < ?V ?r" "0 < ?V ?r"
    by simp_all
qed

lemma unat_eq_of_nat_u8: "v < 256 \<Longrightarrow> (g = (of_nat v :: u8)) \<longleftrightarrow> unat g = v"
proof
  assume "v < 256" and "g = (of_nat v :: u8)"
  then show "unat g = v" by (simp add: unat_of_nat)
next
  assume "unat g = v"
  then have "of_nat (unat g) = (of_nat v :: u8)" by simp
  then show "g = of_nat v" by simp
qed

lemma unat_u8_less: "unat (g :: u8) < 256"
  using unsigned_less [of g, where 'a = nat] by simp

lemma histogram_loop_count:
  "length h = 256 \<Longrightarrow> v < 256 \<Longrightarrow>
   histogram_loop d h ! v = h ! v + count_list (luminances d) (of_nat v)"
proof (induction d h rule: histogram_loop.induct)
  case (1 h)
  then show ?case by simp
next
  case (2 gray rest h)
  let ?h = "h[unat gray := h ! unat gray + 1]"
  from "2.prems" have "length ?h = 256" by simp
  from "2.IH" [OF this "2.prems"(2)]
  have "histogram_loop (drop 3 rest) ?h ! v =
          ?h ! v + count_list (luminances (drop 3 rest)) (of_nat v)" .
  moreover have "?h ! v = h ! v + (if gray = of_nat v then 1 else 0)"
    using "2.prems" unat_u8_less [of gray] unat_eq_of_nat_u8 [OF "2.prems"(2), of gray]
    by (auto simp: nth_list_update)
  ultimately show ?case by simp
qed

lemma histogram_of_count:
  "v < 256 \<Longrightarrow> histogram_of img ! v = count_list (luminances (data img)) (of_nat v)"
  by (simp add: histogram_of_def histogram_loop_count)

lemma histogram_of_unat:
  "histogram_of img ! unat g = count_list (luminances (data img)) g"
  using histogram_of_count [OF unat_u8_less, of img g] by simp

lemma histogram_of_pos_iff:
  "0 < histogram_of img ! unat g \<longleftrightarrow> g \<in> set (luminances (data img))"
  by (simp add: histogram_of_unat count_list_0_iff zero_less_iff_neq_zero)

lemma degenerate_pixels:
  "degenerate (histogram_of img) \<longleftrightarrow>
     (\<forall>x \<in> set (luminances (data img)). \<forall>y \<in> set (luminances (data img)). x = y)"
proof
  assume "degenerate (histogram_of img)"
  then obtain b where b: "b < 256" "\<forall>c<256. c \<noteq> b \<longrightarrow> histogram_of img ! c = 0"
    unfolding degenerate_alt by blast
  have "unat x = b" if "x \<in> set (luminances (data img))" for x
  proof (rule ccontr)
    assume "unat x \<noteq> b"
    with b(2) unat_u8_less [of x] have "histogram_of img ! unat x = 0" by simp
    with that show False by (simp add: histogram_of_pos_iff [symmetric])
  qed
  then show "\<forall>x \<in> set (luminances (data img)). \<forall>y \<in> set (luminances (data img)). x = y"
    by (metis word_unat_eq_iff)
next
  assume same: "\<forall>x \<in> set (luminances (data img)). \<forall>y \<in> set (luminances (data img)). x = y"
  show "degenerate (histogram_of img)"
  proof (cases "luminances (data img)")
    case Nil
    then have "\<forall>c<256. histogram_of img ! c = 0"
      by (simp add: histogram_of_count)
    then show ?thesis unfolding degenerate_alt by (intro exI [of _ 0]) simp
  next
    case (Cons g gs)
    have "histogram_of img ! c = 0" if "c < 256" "c \<noteq> unat g" for c
    proof -
      have "(of_nat c :: u8) \<notin> set (luminances (data img))"
      proof
        assume "(of_nat c :: u8) \<in> set (luminances (data img))"
        moreover from Cons have "g \<in> set (luminances (data img))" by simp
        ultimately have "(of_nat c :: u8) = g" using same by blast
        with that show False using unat_eq_of_nat_u8 [OF that(1), of g] by simp
      qed
      then show ?thesis
        by (simp add: histogram_of_count [OF that(1)])
    qed
    then show ?thesis
      unfolding degenerate_alt using unat_u8_less [of g] by blast
  qed
qed

lemma sum_atMost_split:
  "a \<le> c \<Longrightarrow> (\<Sum>j\<le>c. f j) = (\<Sum>j\<le>a. f j) + (\<Sum>j\<in>{a<..c}. f j)" for f :: "nat \<Rightarrow> nat"
proof -
  assume "a \<le> c"
  then have "{..c} = {..a} \<union> {a<..c}" by auto
  moreover have "{..a} \<inter> {a<..c} = {}" by auto
  ultimately show ?thesis by (simp add: sum.union_disjoint)
qed

lemma betweenClassVariance_cong:
  "weightBackground h c = weightBackground h c' \<Longrightarrow> sumBackground h c = sumBackground h c' \<Longrightarrow>
   betweenClassVariance h c = betweenClassVariance h c'"
  by (simp add: betweenClassVariance_def weightForeground_def sumForeground_def)

lemma otsu_two_bins:
  assumes "set (luminances (data img)) = {lo, hi}" and "lo < hi"
  shows "calculateOtsuThreshold img = unat lo"
proof -
  let ?h = "histogram_of img"
  let ?V = "betweenClassVariance ?h" and ?r = "calculateOtsuThreshold img"
  define a b where "a = unat lo" and "b = unat hi"
  from assms(2) have ab: "a < b" by (simp add: a_def b_def word_less_nat_alt)
  have b256: "b < 256" unfolding b_def by (rule unat_u8_less)
  have zero: "?h ! j = 0" if "j < 256" "j \<noteq> a" "j \<noteq> b" for j
  proof -
    from that have "(of_nat j :: u8) \<noteq> lo" "(of_nat j :: u8) \<noteq> hi"
      using unat_eq_of_nat_u8 [OF that(1)] by (auto simp: a_def b_def)
    with assms(1) have "(of_nat j :: u8) \<notin> set (luminances (data img))" by simp
    then show ?thesis by (simp add: histogram_of_count [OF that(1)])
  qed
  have pa: "0 < ?h ! a" and pb: "0 < ?h ! b"
    using assms(1) by (simp_all add: a_def b_def histogram_of_pos_iff)
  from assms have "\<not> degenerate ?h"
    by (auto simp: degenerate_pixels)
  note am = calculateOtsuThreshold_argmax [OF this]
  have below: "?V c = 0" if "c < a" for c
  proof -
    from that ab b256 have "\<forall>j\<in>{..c}. ?h ! j = 0" using zero by auto
    then have "weightBackground ?h c = 0" by (simp add: weightBackground_def)
    then show ?thesis by (simp add: betweenClassVariance_empty)
  qed
  have above: "?V c = 0" if "b \<le> c" "c < 256" for c
  proof -
    from that ab have "\<forall>j\<in>{c<..<256}. ?h ! j = 0" using zero by auto
    then have "weightForeground ?h c = 0" by (simp add: weightForeground_sum [OF that(2)])
    then show ?thesis by (simp add: betweenClassVariance_empty)
  qed
  have between: "?V c = ?V a" if "a \<le> c" "c < b" for c
  proof (rule betweenClassVariance_cong)
    from that b256 have z: "\<forall>j\<in>{a<..c}. ?h ! j = 0" using zero by auto
    then show "weightBackground ?h c = weightBackground ?h a"
      by (simp add: weightBackground_def sum_atMost_split [OF that(1)])
    from z show "sumBackground ?h c = sumBackground ?h a"
      by (simp add: sumBackground_def sum_atMost_split [OF that(1)])
  qed
  have "\<not> ?r < a" using below [of ?r] am(4) by auto
  moreover have "\<not> b \<le> ?r" using above [of ?r] am(1,4) by auto
  ultimately have r: "a \<le> ?r" "?r < b" by simp_all
  have "\<not> a < ?r"
  proof
    assume "a < ?r"
    with am(3) have "?V a < ?V ?r" by simp
    with between [OF r] show False by simp
  qed
  with r show ?thesis by (simp add: a_def)
qed

lemma two_tone_valid: "valid_imageData two_tone_image"
  by code_simp

lemma two_tone_gray: "is_grayscale two_tone_image"
  by code_simp

lemma two_tone_luminances: "set (luminances (data two_tone_image)) = {10, 240}"
  by code_simp

lemma two_tone_scaled: "drawNearest two_tone_image 1 1 = \<lparr>width = 1, height = 1, data = [10, 10, 10, 255]\<rparr>"
  by code_simp

lemma one_pixel_scaled:
  "drawNearest \<lparr>width = 1, height = 1, data = [10, 10, 10, 255]\<rparr> 1 1
     = \<lparr>width = 1, height = 1, data = [10, 10, 10, 255]\<rparr>"
  by code_simp

lemma grayscale_in_place_pixel:
  "grayscale_in_place [v, v, v, a] 0 = [v, v, v, a]"
proof -
  have g: "gray_at [v, v, v, a] 0 = v"
    by (simp add: gray_at_def toUint8Clamped_gray)
  have "grayscale_in_place [v, v, v, a] 0 = grayscale_in_place [v, v, v, a] (0 + 4)"
    by (subst grayscale_in_place.simps) (simp add: g)
  also have "\<dots> = [v, v, v, a]"
    by (subst grayscale_in_place.simps) simp
  finally show ?thesis .
qed

lemma otsu_one_pixel:
  "calculateOtsuThreshold \<lparr>width = 1, height = 1, data = [v, g, b, a]\<rparr> = 128"
  by (rule calculateOtsuThreshold_degenerate) (simp add: degenerate_pixels)

text \<open>
  C5, as the code has it. Each bin of the histogram is the number of pixels of that
  luminance. When all
  pixels have one luminance, or there is no pixel, the result is the default 128.
  Otherwise the result is a cut point below 256 at which the between-class variance,
  as the program computes it in double precision with pixel counts as weights, is
  largest, and it is the first such cut point: every smaller one has a strictly smaller
  variance.
\<close>

theorem calculateOtsuThreshold_maximizes:
  "(\<forall>v \<in> {..<256}. histogram_of img ! v = count_list (luminances (data img)) (of_nat v))
   \<and> ((\<forall>x \<in> set (luminances (data img)). \<forall>y \<in> set (luminances (data img)). x = y) \<longrightarrow>
        calculateOtsuThreshold img = DEFAULT_THRESHOLD)
   \<and> (\<not> (\<forall>x \<in> set (luminances (data img)). \<forall>y \<in> set (luminances (data img)). x = y) \<longrightarrow>
        calculateOtsuThreshold img < 256
        \<and> (\<forall>c \<in> {..<256}. betweenClassVariance (histogram_of img) c
                \<le> betweenClassVariance (histogram_of img) (calculateOtsuThreshold img))
        \<and> (\<forall>c \<in> {..<calculateOtsuThreshold img}. betweenClassVariance (histogram_of img) c
                < betweenClassVariance (histogram_of img) (calculateOtsuThreshold img)))"
proof (intro conjI impI)
  show "\<forall>v \<in> {..<256}. histogram_of img ! v = count_list (luminances (data img)) (of_nat v)"
    by (simp add: histogram_of_count)
next
  assume "\<forall>x \<in> set (luminances (data img)). \<forall>y \<in> set (luminances (data img)). x = y"
  then have "degenerate (histogram_of img)" by (simp only: degenerate_pixels)
  then show "calculateOtsuThreshold img = DEFAULT_THRESHOLD"
    by (simp add: calculateOtsuThreshold_degenerate DEFAULT_THRESHOLD_def)
next
  assume "\<not> (\<forall>x \<in> set (luminances (data img)). \<forall>y \<in> set (luminances (data img)). x = y)"
  then have nd: "\<not> degenerate (histogram_of img)" by (simp add: degenerate_pixels)
  from calculateOtsuThreshold_argmax(1) [OF nd]
  show "calculateOtsuThreshold img < 256" .
  from calculateOtsuThreshold_argmax(2) [OF nd]
  show "\<forall>c \<in> {..<256}. betweenClassVariance (histogram_of img) c
                \<le> betweenClassVariance (histogram_of img) (calculateOtsuThreshold img)"
    by simp
  from calculateOtsuThreshold_argmax(3) [OF nd]
  show "\<forall>c \<in> {..<calculateOtsuThreshold img}. betweenClassVariance (histogram_of img) c
                < betweenClassVariance (histogram_of img) (calculateOtsuThreshold img)"
    by simp
qed

theorem calculateOtsuThreshold_maximizes_witness:
  "calculateOtsuThreshold \<lparr>width = 1, height = 1, data = [10, 10, 10, 255]\<rparr> = 128
   \<and> calculateOtsuThreshold \<lparr>width = 2, height = 1, data = [10, 10, 10, 255, 12, 12, 12, 255]\<rparr>
       = 10
   \<and> betweenClassVariance
         (histogram_of \<lparr>width = 2, height = 1, data = [10, 10, 10, 255, 12, 12, 12, 255]\<rparr>) 11
       \<le> betweenClassVariance
           (histogram_of \<lparr>width = 2, height = 1, data = [10, 10, 10, 255, 12, 12, 12, 255]\<rparr>) 10
   \<and> betweenClassVariance
         (histogram_of \<lparr>width = 2, height = 1, data = [10, 10, 10, 255, 12, 12, 12, 255]\<rparr>) 255
       \<le> betweenClassVariance
           (histogram_of \<lparr>width = 2, height = 1, data = [10, 10, 10, 255, 12, 12, 12, 255]\<rparr>) 10
   \<and> betweenClassVariance
         (histogram_of \<lparr>width = 2, height = 1, data = [10, 10, 10, 255, 12, 12, 12, 255]\<rparr>) 9
       < betweenClassVariance
           (histogram_of \<lparr>width = 2, height = 1, data = [10, 10, 10, 255, 12, 12, 12, 255]\<rparr>) 10"
proof -
  let ?one = "\<lparr>width = 1, height = 1, data = [10, 10, 10, 255 :: u8]\<rparr>"
  let ?two = "\<lparr>width = 2, height = 1, data = [10, 10, 10, 255, 12, 12, 12, 255 :: u8]\<rparr>"
  have d: "\<forall>x \<in> set (luminances (data ?one)). \<forall>y \<in> set (luminances (data ?one)). x = y"
    by simp
  have n: "\<not> (\<forall>x \<in> set (luminances (data ?two)). \<forall>y \<in> set (luminances (data ?two)). x = y)"
    by simp
  have h: "set (luminances (data ?two)) = {10, 12}" "(10 :: u8) < 12"
    by simp_all
  have r: "calculateOtsuThreshold ?two = 10"
    using otsu_two_bins [OF h] by simp
  from calculateOtsuThreshold_maximizes [of ?one] d
  have a: "calculateOtsuThreshold ?one = 128"
    unfolding DEFAULT_THRESHOLD_def by blast
  from calculateOtsuThreshold_maximizes [of ?two] n
  have b: "\<forall>c \<in> {..<256}. betweenClassVariance (histogram_of ?two) c
                \<le> betweenClassVariance (histogram_of ?two) (calculateOtsuThreshold ?two)"
    and c: "\<forall>c \<in> {..<calculateOtsuThreshold ?two}. betweenClassVariance (histogram_of ?two) c
                < betweenClassVariance (histogram_of ?two) (calculateOtsuThreshold ?two)"
    by blast+
  from b have b1: "betweenClassVariance (histogram_of ?two) 11
                \<le> betweenClassVariance (histogram_of ?two) (calculateOtsuThreshold ?two)"
    and b2: "betweenClassVariance (histogram_of ?two) 255
                \<le> betweenClassVariance (histogram_of ?two) (calculateOtsuThreshold ?two)"
    by simp_all
  have "(9 :: nat) \<in> {..<calculateOtsuThreshold ?two}"
    unfolding r by simp
  with c have c1: "betweenClassVariance (histogram_of ?two) 9
                < betweenClassVariance (histogram_of ?two) (calculateOtsuThreshold ?two)"
    by (rule bspec)
  from a r b1 b2 c1 show ?thesis
    unfolding r by (intro conjI)
qed

text \<open>
  The claim that the result is the first cut point at which the between-class variance
  itself is largest fails on four pixels of luminance 0, 1, 1 and 2: the cut points 0
  and 1 both have the variance 1/3, so the first maximum is at 0, yet the doubles the
  program compares are strictly larger at 1 and the result is 1.
\<close>

theorem calculateOtsuThreshold_maximizes_counterexample:
  "calculateOtsuThreshold
     \<lparr>width = 2, height = 2, data = [0, 0, 0, 255, 1, 1, 1, 255, 1, 1, 1, 255, 2, 2, 2, 255]\<rparr> = 1
   \<and> exactBetweenClassVariance
       (histogram_of
          \<lparr>width = 2, height = 2,
           data = [0, 0, 0, 255, 1, 1, 1, 255, 1, 1, 1, 255, 2, 2, 2, 255]\<rparr>) 0 = 1 / 3
   \<and> exactBetweenClassVariance
       (histogram_of
          \<lparr>width = 2, height = 2,
           data = [0, 0, 0, 255, 1, 1, 1, 255, 1, 1, 1, 255, 2, 2, 2, 255]\<rparr>) 1 = 1 / 3
   \<and> betweenClassVariance
       (histogram_of
          \<lparr>width = 2, height = 2,
           data = [0, 0, 0, 255, 1, 1, 1, 255, 1, 1, 1, 255, 2, 2, 2, 255]\<rparr>) 0
     < betweenClassVariance
         (histogram_of
            \<lparr>width = 2, height = 2,
             data = [0, 0, 0, 255, 1, 1, 1, 255, 1, 1, 1, 255, 2, 2, 2, 255]\<rparr>) 1"
  by (intro conjI; code_simp)




section \<open>Properties of the single-image pipeline\<close>

text \<open>
  C1, as the code has it. For a file that passes validation and loading, a grid size of
  at least 1 and no threshold given, processImage returns the threshold that
  calculateOtsuThreshold computes on the raster it thresholds: the image drawn onto a
  \<open>gridSize\<close> by \<open>gridSize\<close> canvas and then converted to gray. The image is scaled
  before the threshold is computed; no full-resolution grayscale raster is built.
\<close>

theorem processImage_auto_threshold:
  assumes "validateImageFile file = Inr ()" and "loadImage decode file = Inr img"
    and "1 \<le> gridSize"
  shows "\<exists>states grayscaleData.
           processImage decode draw file gridSize None
             = Inr (states, calculateOtsuThreshold grayscaleData, grayscaleData)
         \<and> grayscaleData = (draw img gridSize gridSize)
              \<lparr>data := grayscale_in_place (data (draw img gridSize gridSize)) 0\<rparr>
         \<and> applyThreshold draw grayscaleData (calculateOtsuThreshold grayscaleData) gridSize
             = Inr states"
  using assms by (simp add: processImage_def convertToGrayscale_def applyThreshold_def Let_def)

lemma length_grayscale_in_place: "length (grayscale_in_place d i) = length d"
proof (induction d i rule: grayscale_in_place.induct)
  case (1 d i)
  show ?case
  proof (cases "i < length d")
    case True
    from "1" [OF True] True show ?thesis
      by (subst grayscale_in_place.simps) (simp only: if_True length_list_update)
  next
    case False
    then show ?thesis
      by (subst grayscale_in_place.simps) simp
  qed
qed

lemma otsu_four_bytes: "length (data img) = 4 \<Longrightarrow> calculateOtsuThreshold img = 128"
proof -
  assume "length (data img) = 4"
  then obtain v g b a where "data img = [v, g, b, a]"
    by (auto simp: length_Suc_conv numeral_eq_Suc)
  then have "degenerate (histogram_of img)"
    by (simp add: degenerate_pixels)
  then show ?thesis by (rule calculateOtsuThreshold_degenerate)
qed

text \<open>
  With a grid size of 1 the returned threshold is the default, whatever the image and
  whatever scaler the canvas uses, as long as the 1 by 1 raster has its four bytes.
\<close>

lemma processImage_one_cell:
  assumes "validateImageFile file = Inr ()" and "loadImage decode file = Inr img"
    and "length (data (draw img 1 1)) = 4"
  shows "\<exists>states grayscaleData.
           processImage decode draw file 1 None = Inr (states, 128, grayscaleData)"
proof -
  let ?g = "(draw img 1 1)\<lparr>data := grayscale_in_place (data (draw img 1 1)) 0\<rparr>"
  from assms(3) have "length (data ?g) = 4"
    by (simp add: length_grayscale_in_place)
  then have "calculateOtsuThreshold ?g = 128" by (rule otsu_four_bytes)
  with assms(1,2) show ?thesis
    by (simp add: processImage_def convertToGrayscale_def applyThreshold_def Let_def)
qed

lemma two_tone_accepted:
  "validateImageFile (Some two_tone_file) = Inr ()"
  "loadImage two_tone_decoder (Some two_tone_file) = Inr two_tone_image"
  by (simp_all add: validateImageFile_def loadImage_def two_tone_file_def two_tone_decoder_def
      two_tone_image_def SUPPORTED_FORMATS_def MAX_FILE_SIZE_def MIN_DIMENSION_def
      MAX_DIMENSION_def)

lemma two_tone_processed:
  "processImage two_tone_decoder drawNearest (Some two_tone_file) 1 None
     = Inr ([True], 128, \<lparr>width = 1, height = 1, data = [10, 10, 10, 255]\<rparr>)"
proof -
  have g: "convertToGrayscale drawNearest two_tone_image 1 1
             = Inr \<lparr>width = 1, height = 1, data = [10, 10, 10, 255]\<rparr>"
    unfolding convertToGrayscale_def Let_def two_tone_scaled
    by (simp add: grayscale_in_place_pixel)
  have t: "applyThreshold drawNearest \<lparr>width = 1, height = 1, data = [10, 10, 10, 255]\<rparr> 128 1
             = Inr [True]"
    unfolding applyThreshold_def one_pixel_scaled by simp
  show ?thesis
    by (simp only: processImage_def two_tone_accepted g otsu_one_pixel t Let_def
        sum.case option.case)
qed

lemma two_tone_scaled2:
  "drawNearest two_tone_image 2 2
     = \<lparr>width = 2, height = 2,
        data = [10, 10, 10, 255, 10, 10, 10, 255, 240, 240, 240, 255, 240, 240, 240, 255]\<rparr>"
  by code_simp

lemma four_pixels_scaled:
  "drawNearest \<lparr>width = 2, height = 2,
        data = [10, 10, 10, 255, 10, 10, 10, 255, 240, 240, 240, 255, 240, 240, 240, 255]\<rparr> 2 2
     = \<lparr>width = 2, height = 2,
        data = [10, 10, 10, 255, 10, 10, 10, 255, 240, 240, 240, 255, 240, 240, 240, 255]\<rparr>"
  by code_simp

lemma grayscale_in_place_step:
  assumes "i + 2 < length d" and "d ! (i + 1) = d ! i" and "d ! (i + 2) = d ! i"
  shows "grayscale_in_place d i = grayscale_in_place d (i + 4)"
proof -
  from assms have g: "gray_at d i = d ! i"
    by (simp add: gray_at_def toUint8Clamped_gray)
  from assms have "d[i := gray_at d i, i + 1 := gray_at d i, i + 2 := gray_at d i] = d"
    unfolding g by (metis list_update_id)
  with assms(1) show ?thesis
    by (subst grayscale_in_place.simps) simp
qed

lemma four_pixels_gray:
  "grayscale_in_place
     [10, 10, 10, 255, 10, 10, 10, 255, 240, 240, 240, 255, 240, 240, 240, 255] 0
   = [10, 10, 10, 255, 10, 10, 10, 255, 240, 240, 240, 255, 240, 240, 240, 255]"
proof -
  let ?d = "[10, 10, 10, 255, 10, 10, 10, 255, 240, 240, 240, 255, 240, 240, 240, 255 :: u8]"
  have "grayscale_in_place ?d 0 = grayscale_in_place ?d 4"
    using grayscale_in_place_step [of 0 ?d] by simp
  also have "\<dots> = grayscale_in_place ?d 8"
    using grayscale_in_place_step [of 4 ?d] by simp
  also have "\<dots> = grayscale_in_place ?d 12"
    using grayscale_in_place_step [of 8 ?d] by simp
  also have "\<dots> = grayscale_in_place ?d 16"
    using grayscale_in_place_step [of 12 ?d] by simp
  also have "\<dots> = ?d"
    by (subst grayscale_in_place.simps) simp
  finally show ?thesis .
qed

lemma four_pixels_otsu:
  "calculateOtsuThreshold \<lparr>width = 2, height = 2,
        data = [10, 10, 10, 255, 10, 10, 10, 255, 240, 240, 240, 255, 240, 240, 240, 255]\<rparr> = 10"
proof -
  let ?g = "\<lparr>width = 2, height = 2,
        data = [10, 10, 10, 255, 10, 10, 10, 255, 240, 240, 240, 255, 240, 240, 240, 255 :: u8]\<rparr>"
  have h: "set (luminances (data ?g)) = {10, 240}" "(10 :: u8) < 240"
    by simp_all
  from otsu_two_bins [OF h] show ?thesis by simp
qed

lemma two_tone_processed2:
  "processImage two_tone_decoder drawNearest (Some two_tone_file) 2 None
     = Inr ([False, False, False, False], 10,
            \<lparr>width = 2, height = 2,
        data = [10, 10, 10, 255, 10, 10, 10, 255, 240, 240, 240, 255, 240, 240, 240, 255]\<rparr>)"
proof -
  have g: "convertToGrayscale drawNearest two_tone_image 2 2
             = Inr \<lparr>width = 2, height = 2,
        data = [10, 10, 10, 255, 10, 10, 10, 255, 240, 240, 240, 255, 240, 240, 240, 255]\<rparr>"
    unfolding convertToGrayscale_def Let_def two_tone_scaled2
    by (simp add: four_pixels_gray)
  have t: "applyThreshold drawNearest \<lparr>width = 2, height = 2,
        data = [10, 10, 10, 255, 10, 10, 10, 255, 240, 240, 240, 255, 240, 240, 240, 255]\<rparr> 10 2
             = Inr [False, False, False, False]"
    unfolding applyThreshold_def four_pixels_scaled by code_simp
  show ?thesis
    by (simp only: processImage_def two_tone_accepted g four_pixels_otsu t Let_def
        sum.case option.case)
qed

text \<open>
  The two-tone image on a grid of 2 by 2: the scaled raster has two pixels of luminance
  10 and two of 240, its threshold is 10, and no cell is below it.
\<close>

theorem processImage_auto_threshold_witness:
  "validateImageFile (Some two_tone_file) = Inr ()
   \<and> loadImage two_tone_decoder (Some two_tone_file) = Inr two_tone_image
   \<and> processImage two_tone_decoder drawNearest (Some two_tone_file) 2 None
       = Inr ([False, False, False, False],
              calculateOtsuThreshold \<lparr>width = 2, height = 2,
                data = [10, 10, 10, 255, 10, 10, 10, 255, 240, 240, 240, 255, 240, 240, 240, 255]\<rparr>,
              \<lparr>width = 2, height = 2,
                data = [10, 10, 10, 255, 10, 10, 10, 255, 240, 240, 240, 255, 240, 240, 240, 255]\<rparr>)
   \<and> calculateOtsuThreshold \<lparr>width = 2, height = 2,
                data = [10, 10, 10, 255, 10, 10, 10, 255, 240, 240, 240, 255, 240, 240, 240, 255]\<rparr>
       = 10"
proof -
  have two: "(1::nat) \<le> 2" by simp
  from processImage_auto_threshold [OF two_tone_accepted two, of drawNearest]
  obtain states grayscaleData where
    r: "processImage two_tone_decoder drawNearest (Some two_tone_file) 2 None
          = Inr (states, calculateOtsuThreshold grayscaleData, grayscaleData)"
    by blast
  with two_tone_processed2 have "states = [False, False, False, False]"
    and "grayscaleData = \<lparr>width = 2, height = 2,
                data = [10, 10, 10, 255, 10, 10, 10, 255, 240, 240, 240, 255, 240, 240, 240, 255]\<rparr>"
    by simp_all
  with r two_tone_accepted four_pixels_otsu show ?thesis by simp
qed

text \<open>
  The claim that the returned threshold is Otsu's threshold of the full-resolution
  grayscale raster fails on the 10 by 10 two-tone image with a grid size of 1: the
  pipeline returns 128, the threshold of the single scaled pixel, while the
  full-resolution grayscale raster (the image itself, which is already gray) has
  threshold 10.
\<close>

theorem processImage_auto_threshold_counterexample:
  "processImage two_tone_decoder drawNearest (Some two_tone_file) 1 None
     = Inr ([True], 128, \<lparr>width = 1, height = 1, data = [10, 10, 10, 255]\<rparr>)
   \<and> convertImageDataToGrayscale two_tone_image = Inr two_tone_image
   \<and> calculateOtsuThreshold two_tone_image = 10
   \<and> (128 :: nat) \<noteq> calculateOtsuThreshold two_tone_image"
proof -
  have "convertImageDataToGrayscale two_tone_image = Inr two_tone_image"
    using two_tone_valid two_tone_gray by (rule convert_grayscale_raster)
  moreover have "calculateOtsuThreshold two_tone_image = 10"
    using otsu_two_bins [OF two_tone_luminances] by simp
  ultimately show ?thesis using two_tone_processed by simp
qed

section \<open>Properties of playback\<close>










section \<open>Properties of the hook's frame processing\<close>

lemma extractGIFrames_delays:
  assumes "extractGIFrames decode Math_sin file = Inr (fs, w, h)"
  shows "map delay fs = map (\<lambda>i. Some (of_nat (100 + i * 5))) [0..<15]"
    and "\<forall>f \<in> set fs. 0 < width (imageData f) \<and> 0 < height (imageData f)"
proof -
  from assms obtain f img where f: "file = Some f" "decode f = Some img"
    "0 < width img" "0 < height img"
    and fs: "fs = map (\<lambda>i. \<lparr>imageData = (if 0 < i then waveFrame Math_sin i img else img),
                                    delay = Some (of_nat (100 + i * 5)),
                                    disposalMethod = 2,
                                    checkboxStates = None\<rparr>) [0..<15]"
    by (auto simp del: upt_rec_numeral simp: extractGIFrames_def split: option.splits if_splits)
  show "map delay fs = map (\<lambda>i. Some (of_nat (100 + i * 5))) [0..<15]"
    unfolding fs by (simp add: comp_def del: upt_rec_numeral)
  show "\<forall>f \<in> set fs. 0 < width (imageData f) \<and> 0 < height (imageData f)"
    unfolding fs using f(3,4) by (auto simp: waveFrame_def simp del: upt_rec_numeral)
qed

lemma extractGIFrames_ok:
  assumes "decode f = Some img" and "0 < width img" and "0 < height img"
  shows "\<exists>fs. extractGIFrames decode Math_sin (Some f) = Inr (fs, width img, height img)"
  using assms by (simp add: extractGIFrames_def del: upt_rec_numeral)

lemma processFrames_delays:
  "processFrames draw fs gridSize threshold = Inr ps \<Longrightarrow>
   map delay ps = map (\<lambda>f. Some (delay_or_100 (delay f))) fs"
proof (induction fs arbitrary: ps)
  case Nil
  then show ?case by simp
next
  case (Cons f fs)
  then show ?case
    by (auto split: sum.splits)
qed

lemma processFrames_ok:
  assumes "\<forall>f \<in> set fs. 0 < width (imageData f) \<and> 0 < height (imageData f)" and "0 < gridSize"
  shows "\<exists>ps. processFrames draw fs gridSize threshold = Inr ps"
  using assms
proof (induction fs)
  case Nil
  then show ?case by simp
next
  case (Cons f fs)
  then obtain ps where "processFrames draw fs gridSize threshold = Inr ps" by auto
  with Cons.prems show ?case
    by (simp add: convertImageDataToGrayscale_def applyThreshold_def)
qed

lemma processGIF_result:
  assumes "processGIF decode Math_sin draw st file gridSize threshold = (Inr fs, st')"
  shows "frames st' = fs" and "frameCount st' = 15" and "length fs = 15"
    and "map delay fs = map (\<lambda>i. Some (of_nat (100 + i * 5))) [0..<15]"
proof -
  obtain efs w h where e: "extractGIFrames decode Math_sin file = Inr (efs, w, h)"
  proof (cases "extractGIFrames decode Math_sin file")
    case (Inl err)
    with assms show ?thesis by (simp add: processGIF_def)
  next
    case (Inr t)
    with that show ?thesis by (cases t) simp
  qed
  obtain ps where p0: "processFrames draw efs gridSize threshold = Inr ps"
  proof (cases "processFrames draw efs gridSize threshold")
    case (Inl err)
    with assms e show ?thesis by (simp add: processGIF_def)
  next
    case (Inr t)
    with that show ?thesis by simp
  qed
  from assms have eq: "ps = fs" and fr: "frames st' = fs" and fc: "frameCount st' = length fs"
    by (auto simp: processGIF_def Let_def e p0)
  from p0 eq have p: "processFrames draw efs gridSize threshold = Inr fs" by simp
  have "map delay fs = map (\<lambda>f. Some (delay_or_100 (delay f))) efs"
    using p by (rule processFrames_delays)
  also have "\<dots> = map (\<lambda>d. Some (delay_or_100 d)) (map delay efs)"
    by (simp only: map_map comp_def)
  also have "\<dots> = map (\<lambda>d. Some (delay_or_100 d))
                      (map (\<lambda>i. Some (of_nat (100 + i * 5))) [0..<15])"
    by (simp only: extractGIFrames_delays(1) [OF e])
  also have "\<dots> = map (\<lambda>i. Some (of_nat (100 + i * 5))) [0..<15]"
    by (simp add: delay_or_100_def comp_def del: upt_rec_numeral)
  finally show d: "map delay fs = map (\<lambda>i. Some (of_nat (100 + i * 5))) [0..<15]" .
  from d have "length (map delay fs) = 15" by simp
  then show l: "length fs = 15" by simp
  from fr show "frames st' = fs" .
  from fc l show "frameCount st' = 15" by simp
qed

lemma processGIF_ok:
  assumes "decode f = Some img" and "0 < width img" and "0 < height img" and "0 < gridSize"
  shows "\<exists>fs st'. processGIF decode Math_sin draw st (Some f) gridSize threshold = (Inr fs, st')"
proof -
  from extractGIFrames_ok [of decode f img Math_sin, OF assms(1-3)] obtain efs
    where e: "extractGIFrames decode Math_sin (Some f) = Inr (efs, width img, height img)" ..
  from processFrames_ok [OF extractGIFrames_delays(2) [OF e] assms(4)] obtain ps
    where "processFrames draw efs gridSize threshold = Inr ps" ..
  with e show ?thesis
    by (simp add: processGIF_def Let_def del: upt_rec_numeral)
qed

lemma two_tone_gif_ok:
  "\<exists>fs st'. processGIF two_tone_decoder taylor_sin drawNearest initial_hookState (Some f) 1 128
              = (Inr fs, st')"
  by (rule processGIF_ok [of two_tone_decoder f two_tone_image])
     (simp_all add: two_tone_decoder_def two_tone_image_def)

lemma length_processFrames:
  "processFrames draw fs gridSize threshold = Inr ps \<Longrightarrow> length ps = length fs"
  using processFrames_delays [of draw fs gridSize threshold ps]
  by (metis length_map)

lemma processFrames_nth_delay:
  assumes "processFrames draw fs gridSize threshold = Inr ps" and "i < length fs"
  shows "delay (ps ! i) = Some (delay_or_100 (delay (fs ! i)))"
proof -
  from assms have "i < length ps" by (simp add: length_processFrames)
  then have "delay (ps ! i) = map delay ps ! i" by simp
  also have "\<dots> = map (\<lambda>f. Some (delay_or_100 (delay f))) fs ! i"
    by (simp only: processFrames_delays [OF assms(1)])
  also have "\<dots> = Some (delay_or_100 (delay (fs ! i)))"
    using assms(2) by simp
  finally show ?thesis .
qed

text \<open>
  C10. In the frame loop of processGIF, a frame whose delay is missing or 0 is stored
  with a delay of 100. Every frame that processGIF returns, and stores in the hook's
  state, has a numeric delay above 0, and for every speed above 0 the quotient
  \<open>delay / speed\<close>, exact and as playback computes it, is above 0.
\<close>

theorem processGIF_delays_positive:
  "(\<forall>efs ps. processFrames draw efs gridSize threshold = Inr ps \<longrightarrow>
       length ps = length efs
       \<and> (\<forall>i \<in> {..<length efs}.
             delay (efs ! i) = None \<or> delay (efs ! i) = Some 0 \<longrightarrow> delay (ps ! i) = Some 100))
   \<and> (\<forall>fs st'. processGIF decode Math_sin draw st file gridSize threshold = (Inr fs, st') \<longrightarrow>
         frames st' = fs
         \<and> (\<forall>f \<in> set fs. \<exists>d. delay f = Some d \<and> 0 < d
                \<and> (\<forall>speed. 0 < speed \<longrightarrow> 0 < d / speed \<and> 0 < js_div d speed)))"
proof (intro conjI allI impI ballI)
  fix efs ps
  assume p: "processFrames draw efs gridSize threshold = Inr ps"
  then show "length ps = length efs" by (rule length_processFrames)
  fix i
  assume "i \<in> {..<length efs}" and "delay (efs ! i) = None \<or> delay (efs ! i) = Some 0"
  with processFrames_nth_delay [OF p, of i] show "delay (ps ! i) = Some 100"
    by (auto simp: delay_or_100_def)
next
  fix fs st'
  assume r: "processGIF decode Math_sin draw st file gridSize threshold = (Inr fs, st')"
  from processGIF_result(1) [OF r] show "frames st' = fs" .
  fix f assume "f \<in> set fs"
  then have "delay f \<in> set (map delay fs)" by simp
  then obtain i where "delay f = Some (of_nat (100 + i * 5))"
    unfolding processGIF_result(4) [OF r] by (auto simp del: upt_rec_numeral)
  moreover have "(0::rat) < of_nat (100 + i * 5)" by simp
  moreover have "0 < of_nat (100 + i * 5) / speed \<and> 0 < js_div (of_nat (100 + i * 5)) speed"
    if "0 < speed" for speed :: rat
    unfolding js_div_def using that by (intro conjI fl53_pos) simp_all
  ultimately show "\<exists>d. delay f = Some d \<and> 0 < d
                \<and> (\<forall>speed. 0 < speed \<longrightarrow> 0 < d / speed \<and> 0 < js_div d speed)"
    by blast
qed

text \<open>
  Three extracted frames with the delays missing, 0 and 7 are stored with the delays
  100, 100 and 7; the upload of the two-tone image is stored as fifteen frames with
  positive delays.
\<close>

theorem processGIF_delays_positive_witness:
  "(\<exists>ps. processFrames drawNearest
            [\<lparr>imageData = two_tone_image, delay = None, disposalMethod = 2,
              checkboxStates = None\<rparr>,
             \<lparr>imageData = two_tone_image, delay = Some 0, disposalMethod = 2,
              checkboxStates = None\<rparr>,
             \<lparr>imageData = two_tone_image, delay = Some 7, disposalMethod = 2,
              checkboxStates = None\<rparr>] 1 128 = Inr ps
         \<and> map delay ps = [Some 100, Some 100, Some 7])
   \<and> (\<exists>fs st'. processGIF two_tone_decoder taylor_sin drawNearest initial_hookState
                  (Some two_tone_file) 1 128 = (Inr fs, st')
          \<and> frames st' = fs \<and> length fs = 15
          \<and> (\<forall>f \<in> set fs. \<exists>d. delay f = Some d \<and> 0 < d \<and> 0 < d / 2 \<and> 0 < js_div d 2))"
proof -
  let ?efs = "[\<lparr>imageData = two_tone_image, delay = None, disposalMethod = 2,
              checkboxStates = None\<rparr>,
             \<lparr>imageData = two_tone_image, delay = Some 0, disposalMethod = 2,
              checkboxStates = None\<rparr>,
             \<lparr>imageData = two_tone_image, delay = Some 7, disposalMethod = 2,
              checkboxStates = None\<rparr>]"
  note inst = processGIF_delays_positive
    [of drawNearest 1 128 two_tone_decoder taylor_sin initial_hookState "Some two_tone_file"]
  have "\<forall>f \<in> set ?efs. 0 < width (imageData f) \<and> 0 < height (imageData f)"
    by (simp add: two_tone_image_def)
  from processFrames_ok [OF this, of 1 drawNearest 128] obtain ps where
    ps: "processFrames drawNearest ?efs 1 128 = Inr ps" by auto
  with inst have l: "length ps = length ?efs"
    and d: "\<forall>i \<in> {..<length ?efs}.
             delay (?efs ! i) = None \<or> delay (?efs ! i) = Some 0 \<longrightarrow> delay (ps ! i) = Some 100"
    by blast+
  from d have d01: "delay (ps ! 0) = Some 100" "delay (ps ! 1) = Some 100"
    by simp_all
  from processFrames_nth_delay [OF ps, of 2] have d2: "delay (ps ! 2) = Some 7"
    by (simp add: delay_or_100_def)
  from l obtain a b c where "ps = [a, b, c]"
    by (auto simp: length_Suc_conv)
  with d01 d2 have m: "map delay ps = [Some 100, Some 100, Some 7]"
    by simp
  from two_tone_gif_ok [of two_tone_file] obtain fs st' where
    r: "processGIF two_tone_decoder taylor_sin drawNearest initial_hookState
          (Some two_tone_file) 1 128 = (Inr fs, st')"
    by blast
  with inst have "frames st' = fs"
    and "\<forall>f \<in> set fs. \<exists>d. delay f = Some d \<and> 0 < d
                \<and> (\<forall>speed. 0 < speed \<longrightarrow> 0 < d / speed \<and> 0 < js_div d speed)"
    by blast+
  moreover have "(0::rat) < 2" by simp
  ultimately have "frames st' = fs"
    and "\<forall>f \<in> set fs. \<exists>d. delay f = Some d \<and> 0 < d \<and> 0 < d / 2 \<and> 0 < js_div d 2"
    by blast+
  with r processGIF_result(3) [OF r]
  have b: "\<exists>fs st'. processGIF two_tone_decoder taylor_sin drawNearest initial_hookState
                  (Some two_tone_file) 1 128 = (Inr fs, st')
          \<and> frames st' = fs \<and> length fs = 15
          \<and> (\<forall>f \<in> set fs. \<exists>d. delay f = Some d \<and> 0 < d \<and> 0 < d / 2 \<and> 0 < js_div d 2)"
    by (intro exI [of _ fs] exI [of _ st'] conjI)
  from ps m have a: "\<exists>ps. processFrames drawNearest ?efs 1 128 = Inr ps
         \<and> map delay ps = [Some 100, Some 100, Some 7]"
    by (intro exI [of _ ps] conjI)
  from a b show ?thesis by (rule conjI)
qed

text \<open>
  C8 fails on the code. validateGIF rejects a missing file, a file that is not a GIF and
  a GIF above 50 MB, and processGIF of gifProcessor.js calls it first; processGIF of the
  hook, the one the application runs, calls extractGIFrames directly. For a 60 MB GIF
  and for a PNG it returns fifteen frames, and for a missing file it fails with the
  browser's TypeError, not with NO_FILE.
\<close>

theorem processGIF_hook_skips_validation:
  "validateGIF (Some \<lparr>file_type = ''image/gif'', file_size = 60 * 1024 * 1024\<rparr>)
     = Inl (ImageProcessingError FILE_TOO_LARGE)
   \<and> (\<exists>fs st'. processGIF two_tone_decoder taylor_sin drawNearest initial_hookState
                  (Some \<lparr>file_type = ''image/gif'', file_size = 60 * 1024 * 1024\<rparr>) 1 128
                  = (Inr fs, st')
          \<and> length fs = 15 \<and> frames st' = fs)
   \<and> validateGIF (Some two_tone_file) = Inl (ImageProcessingError UNSUPPORTED_FORMAT)
   \<and> (\<exists>fs st'. processGIF two_tone_decoder taylor_sin drawNearest initial_hookState
                  (Some two_tone_file) 1 128 = (Inr fs, st')
          \<and> length fs = 15 \<and> frames st' = fs)
   \<and> validateGIF None = Inl (ImageProcessingError NO_FILE)
   \<and> fst (processGIF two_tone_decoder taylor_sin drawNearest initial_hookState None 1 128)
       = Inl (BrowserException ''TypeError'')"
proof -
  have v: "validateGIF (Some \<lparr>file_type = ''image/gif'', file_size = 60 * 1024 * 1024\<rparr>)
             = Inl (ImageProcessingError FILE_TOO_LARGE)"
    "validateGIF (Some two_tone_file) = Inl (ImageProcessingError UNSUPPORTED_FORMAT)"
    "validateGIF None = Inl (ImageProcessingError NO_FILE)"
    by (simp_all add: validateGIF_def GIF_SUPPORTED_FORMATS_def two_tone_file_def)
  have p: "\<exists>fs st'. processGIF two_tone_decoder taylor_sin drawNearest initial_hookState (Some f) 1 128
                  = (Inr fs, st') \<and> length fs = 15 \<and> frames st' = fs" for f
    using two_tone_gif_ok [of f] processGIF_result(1,3) by blast
  have n: "fst (processGIF two_tone_decoder taylor_sin drawNearest initial_hookState None 1 128)
       = Inl (BrowserException ''TypeError'')"
    by (simp add: processGIF_def extractGIFrames_def Let_def del: upt_rec_numeral)
  from v p n show ?thesis by blast
qed

end
